theory Spec2Isabelle
  imports Complex_Main "HOL-Library.AList"
begin

section \<open>Common data model\<close>

text \<open>
  The Python exceptions that the modelled functions can raise. A raising call is the
  \<open>Inl\<close> branch of a result \<open>py_error + 'a\<close>; a normal return is \<open>Inr\<close>.
  \<^item> \<open>KeyError\<close>: a \<^verbatim>\<open>dict[key]\<close> lookup of an absent key;
  \<^item> \<open>IndexError\<close>: \<^verbatim>\<open>list.pop(0)\<close> on an empty list;
  \<^item> \<open>NetworkXError\<close>: \<^verbatim>\<open>G.neighbors(n)\<close> for a node that is not in the graph;
  \<^item> \<open>ValueError\<close>: a numpy reduction without identity on an empty array;
  \<^item> \<open>ZeroDivisionError\<close>: a division by zero.
\<close>

datatype py_error = KeyError | IndexError | NetworkXError | ValueError | ZeroDivisionError

type_synonym node = int
type_synonym user = int

text \<open>
  A networkx graph as the adjacency dictionary it keeps: every node of the graph is a
  key, bound to its neighbours in iteration order. Python dictionaries are finite and
  ordered, hence an association list; \<open>map_of\<close> is the lookup.
\<close>

type_synonym nx_graph = "(node \<times> node list) list"

definition graph_nodes :: "nx_graph \<Rightarrow> node list" where
  "graph_nodes g = map fst g"

definition neighbors :: "nx_graph \<Rightarrow> node \<Rightarrow> py_error + node list" where
  "neighbors g n = (case map_of g n of None \<Rightarrow> Inl NetworkXError | Some ns \<Rightarrow> Inr ns)"

text \<open>Every node that occurs in some neighbour list: a finite bound for the traversals.\<close>

definition neighbor_pool :: "nx_graph \<Rightarrow> node set" where
  "neighbor_pool g = (\<Union>e \<in> set g. set (snd e))"

section \<open>Density-aware engine (adka.py and density\_aware\_\_k\_anonymity\_simulation.py)\<close>

text \<open>
  \<^verbatim>\<open>user_locations\<close> (\<^verbatim>\<open>city.user_at_node\<close> in the class version) is a dictionary
  from node to the number of users there; indexing it at an absent node raises KeyError.
\<close>

type_synonym user_locations = "node \<rightharpoonup> int"

text \<open>
  \<^verbatim>\<open>compute_density\<close> (adka.py 25-41; \<^verbatim>\<open>compute_local_density\<close> in the class version is
  the same code). The state of the while loop is \<open>(visited, queue, count)\<close>; the queue
  holds pairs of a node and its depth tag. \<open>density_scan\<close> is the inner
  \<^verbatim>\<open>for neigh in G.neighbors(current)\<close> loop for a node popped with tag \<open>d\<close>.
\<close>

type_synonym density_state = "node set \<times> (node \<times> int) list \<times> int"

fun density_scan ::
  "user_locations \<Rightarrow> int \<Rightarrow> node list \<Rightarrow> density_state \<Rightarrow> py_error + density_state" where
  "density_scan ul d [] s = Inr s"
| "density_scan ul d (neigh # ns) (visited, queue, cnt) =
     (if neigh \<notin> visited then
        (case ul neigh of
           None \<Rightarrow> Inl KeyError
         | Some p \<Rightarrow>
             density_scan ul d ns (insert neigh visited, queue @ [(neigh, d + 1)], cnt + p))
      else density_scan ul d ns (visited, queue, cnt))"

lemma density_scan_measure:
  "density_scan ul d ns (visited, queue, cnt) = Inr (visited', queue', cnt') \<Longrightarrow>
   finite V \<Longrightarrow> set ns \<subseteq> V \<Longrightarrow>
   card (V - visited') + length queue' = card (V - visited) + length queue"
proof (induction ns arbitrary: visited queue cnt)
  case Nil
  then show ?case by simp
next
  case (Cons neigh ns)
  show ?case
  proof (cases "neigh \<in> visited")
    case True
    with Cons show ?thesis by simp
  next
    case False
    with Cons.prems obtain p where p: "ul neigh = Some p"
      and run: "density_scan ul d ns (insert neigh visited, queue @ [(neigh, d + 1)], cnt + p)
                = Inr (visited', queue', cnt')"
      by (auto split: option.splits)
    from Cons.prems False have "neigh \<in> V - visited" by simp
    with \<open>finite V\<close> have "card (V - visited) = Suc (card (V - insert neigh visited))"
      by (metis Diff_insert card_Suc_Diff1 finite_Diff)
    moreover from Cons.IH [OF run] Cons.prems
    have "card (V - visited') + length queue'
          = card (V - insert neigh visited) + length (queue @ [(neigh, d + 1)])"
      by simp
    ultimately show ?thesis by simp
  qed
qed

lemma finite_neighbor_pool: "finite (neighbor_pool g)"
  by (simp add: neighbor_pool_def)

lemma neighbors_in_pool: "neighbors g n = Inr ns \<Longrightarrow> set ns \<subseteq> neighbor_pool g"
  by (auto simp: neighbors_def neighbor_pool_def split: option.splits dest!: map_of_SomeD)

function density_loop ::
  "nx_graph \<Rightarrow> user_locations \<Rightarrow> int \<Rightarrow> density_state \<Rightarrow> py_error + int" where
  "density_loop g ul depth (visited, queue, cnt) =
     (case queue of
        [] \<Rightarrow> Inr cnt
      | (current, d) # rest \<Rightarrow>
          if d = depth then density_loop g ul depth (visited, rest, cnt)
          else (case neighbors g current of
                  Inl e \<Rightarrow> Inl e
                | Inr ns \<Rightarrow>
                    (case density_scan ul d ns (visited, rest, cnt) of
                       Inl e \<Rightarrow> Inl e
                     | Inr s' \<Rightarrow> density_loop g ul depth s')))"
  by pat_completeness auto
termination
proof (relation "measure (\<lambda>(g, ul, depth, visited, queue, cnt).
                   card (neighbor_pool g - visited) + length queue)")
  show "wf (measure (\<lambda>(g, ul, depth, visited, queue, cnt).
                   card (neighbor_pool g - visited) + length queue))"
    by simp
next
  fix g :: nx_graph and ul :: user_locations and depth :: int
    and visited :: "node set" and queue :: "(node \<times> int) list" and cnt :: int
    and x21 :: "node \<times> int" and rest current d
  assume "queue = x21 # rest" "(current, d) = x21" "d = depth"
  then show "((g, ul, depth, visited, rest, cnt), g, ul, depth, visited, queue, cnt)
       \<in> measure (\<lambda>(g, ul, depth, visited, queue, cnt).
                   card (neighbor_pool g - visited) + length queue)"
    by simp
next
  fix g :: nx_graph and ul :: user_locations and depth :: int
    and visited :: "node set" and queue :: "(node \<times> int) list" and cnt :: int
    and x21 :: "node \<times> int" and rest current d ns s'
  assume q: "queue = x21 # rest" "(current, d) = x21"
    and nb: "neighbors g current = Inr ns"
    and sc: "density_scan ul d ns (visited, rest, cnt) = Inr s'"
  obtain visited' queue' cnt' where s': "s' = (visited', queue', cnt')"
    by (cases s') auto
  from density_scan_measure [OF sc [unfolded s'] finite_neighbor_pool neighbors_in_pool [OF nb]]
  have "card (neighbor_pool g - visited') + length queue'
        = card (neighbor_pool g - visited) + length rest" .
  with q s' show "((g, ul, depth, s'), g, ul, depth, visited, queue, cnt)
       \<in> measure (\<lambda>(g, ul, depth, visited, queue, cnt).
                   card (neighbor_pool g - visited) + length queue)"
    by simp
qed

declare density_loop.simps [simp del]

definition compute_density :: "nx_graph \<Rightarrow> user_locations \<Rightarrow> node \<Rightarrow> int \<Rightarrow> py_error + int" where
  "compute_density g ul n depth =
     (case ul n of
        None \<Rightarrow> Inl KeyError
      | Some c \<Rightarrow> density_loop g ul depth ({n}, [(n, 0)], c))"

text \<open>\<^verbatim>\<open>select_k\<close> (adka.py 44-50) and \<^verbatim>\<open>classify_density_level\<close> (class version 74-79).\<close>

definition select_k :: "int \<Rightarrow> int" where
  "select_k density = (if density < 4 then 10 else if density < 10 then 5 else 2)"

definition classify_density_level :: "int \<Rightarrow> string" where
  "classify_density_level density =
     (if density < 4 then ''Sparse'' else if density < 10 then ''Medium'' else ''Dense'')"

text \<open>
  Region expansion. The loop state is \<open>(region, queue, user_count)\<close>. \<open>expand_scan\<close> is
  the inner \<^verbatim>\<open>for neigh in G.neighbors(current)\<close> loop, which both versions share; its
  \<^verbatim>\<open>break\<close> leaves the scan as soon as the running count reaches \<open>k\<close>.
\<close>

type_synonym expand_state = "node set \<times> node list \<times> int"

fun expand_scan ::
  "user_locations \<Rightarrow> int \<Rightarrow> node list \<Rightarrow> expand_state \<Rightarrow> py_error + expand_state" where
  "expand_scan ul k [] s = Inr s"
| "expand_scan ul k (neigh # ns) (region, queue, user_count) =
     (if neigh \<notin> region then
        (case ul neigh of
           None \<Rightarrow> Inl KeyError
         | Some p \<Rightarrow>
             if user_count + p \<ge> k
             then Inr (insert neigh region, queue @ [neigh], user_count + p)
             else expand_scan ul k ns (insert neigh region, queue @ [neigh], user_count + p))
      else expand_scan ul k ns (region, queue, user_count))"

lemma expand_scan_measure:
  "expand_scan ul k ns (region, queue, cnt) = Inr (region', queue', cnt') \<Longrightarrow>
   finite V \<Longrightarrow> set ns \<subseteq> V \<Longrightarrow>
   card (V - region') + length queue' = card (V - region) + length queue"
proof (induction ns arbitrary: region queue cnt)
  case Nil
  then show ?case by simp
next
  case (Cons neigh ns)
  show ?case
  proof (cases "neigh \<in> region")
    case True
    with Cons show ?thesis by simp
  next
    case False
    with Cons.prems obtain p where p: "ul neigh = Some p"
      by (auto split: option.splits)
    from Cons.prems False have "neigh \<in> V - region" by simp
    with \<open>finite V\<close> have step: "card (V - region) = Suc (card (V - insert neigh region))"
      by (metis Diff_insert card_Suc_Diff1 finite_Diff)
    show ?thesis
    proof (cases "cnt + p \<ge> k")
      case True
      with Cons.prems False p step show ?thesis by auto
    next
      case stay: False
      with Cons.prems False p
      have run: "expand_scan ul k ns (insert neigh region, queue @ [neigh], cnt + p)
                 = Inr (region', queue', cnt')"
        by simp
      from Cons.IH [OF run] Cons.prems
      have "card (V - region') + length queue'
            = card (V - insert neigh region) + length (queue @ [neigh])"
        by simp
      with step show ?thesis by simp
    qed
  qed
qed

text \<open>
  \<^verbatim>\<open>expand_region\<close> of adka.py (53-68): the loop condition is \<^verbatim>\<open>user_count < k\<close>
  alone, so \<^verbatim>\<open>queue.pop(0)\<close> on an exhausted frontier raises IndexError.
\<close>

function expand_region_loop ::
  "nx_graph \<Rightarrow> user_locations \<Rightarrow> int \<Rightarrow> expand_state \<Rightarrow> py_error + node set" where
  "expand_region_loop g ul k (region, queue, user_count) =
     (if user_count < k then
        (case queue of
           [] \<Rightarrow> Inl IndexError
         | current # rest \<Rightarrow>
             (case neighbors g current of
                Inl e \<Rightarrow> Inl e
              | Inr ns \<Rightarrow>
                  (case expand_scan ul k ns (region, rest, user_count) of
                     Inl e \<Rightarrow> Inl e
                   | Inr s' \<Rightarrow> expand_region_loop g ul k s')))
      else Inr region)"
  by pat_completeness auto
termination
proof (relation "measure (\<lambda>(g, ul, k, region, queue, cnt).
                   card (neighbor_pool g - region) + length queue)")
  show "wf (measure (\<lambda>(g, ul, k, region, queue, cnt).
                   card (neighbor_pool g - region) + length queue))"
    by simp
next
  fix g :: nx_graph and ul :: user_locations and k :: int
    and region :: "node set" and queue :: "node list" and cnt :: int
    and current rest ns s'
  assume q: "queue = current # rest"
    and nb: "neighbors g current = Inr ns"
    and sc: "expand_scan ul k ns (region, rest, cnt) = Inr s'"
  obtain region' queue' cnt' where s': "s' = (region', queue', cnt')"
    by (cases s') auto
  from expand_scan_measure [OF sc [unfolded s'] finite_neighbor_pool neighbors_in_pool [OF nb]]
  have "card (neighbor_pool g - region') + length queue'
        = card (neighbor_pool g - region) + length rest" .
  with q s' show "((g, ul, k, s'), g, ul, k, region, queue, cnt)
       \<in> measure (\<lambda>(g, ul, k, region, queue, cnt).
                   card (neighbor_pool g - region) + length queue)"
    by simp
qed

declare expand_region_loop.simps [simp del]

definition expand_region :: "nx_graph \<Rightarrow> user_locations \<Rightarrow> node \<Rightarrow> int \<Rightarrow> py_error + node set" where
  "expand_region g ul start_node k =
     (case ul start_node of
        None \<Rightarrow> Inl KeyError
      | Some c \<Rightarrow> expand_region_loop g ul k ({start_node}, [start_node], c))"

text \<open>
  \<^verbatim>\<open>expand_anonymization_region\<close> of the class version (90-106): the loop condition is
  \<^verbatim>\<open>user_count < k and queue\<close>, so an exhausted frontier ends the loop and the region
  accumulated so far is returned. The two conjuncts are tested in the source's order:
  first the count, then the queue, whose empty case is the \<open>[]\<close> branch.
\<close>

function expand_anonymization_loop ::
  "nx_graph \<Rightarrow> user_locations \<Rightarrow> int \<Rightarrow> expand_state \<Rightarrow> py_error + node set" where
  "expand_anonymization_loop g ul k (region, queue, user_count) =
     (if user_count < k then
        (case queue of
           [] \<Rightarrow> Inr region
         | current # rest \<Rightarrow>
             (case neighbors g current of
                Inl e \<Rightarrow> Inl e
              | Inr ns \<Rightarrow>
                  (case expand_scan ul k ns (region, rest, user_count) of
                     Inl e \<Rightarrow> Inl e
                   | Inr s' \<Rightarrow> expand_anonymization_loop g ul k s')))
      else Inr region)"
  by pat_completeness auto
termination
proof (relation "measure (\<lambda>(g, ul, k, region, queue, cnt).
                   card (neighbor_pool g - region) + length queue)")
  show "wf (measure (\<lambda>(g, ul, k, region, queue, cnt).
                   card (neighbor_pool g - region) + length queue))"
    by simp
next
  fix g :: nx_graph and ul :: user_locations and k :: int
    and region :: "node set" and queue :: "node list" and cnt :: int
    and current rest ns s'
  assume q: "queue = current # rest"
    and nb: "neighbors g current = Inr ns"
    and sc: "expand_scan ul k ns (region, rest, cnt) = Inr s'"
  obtain region' queue' cnt' where s': "s' = (region', queue', cnt')"
    by (cases s') auto
  from expand_scan_measure [OF sc [unfolded s'] finite_neighbor_pool neighbors_in_pool [OF nb]]
  have "card (neighbor_pool g - region') + length queue'
        = card (neighbor_pool g - region) + length rest" .
  with q s' show "((g, ul, k, s'), g, ul, k, region, queue, cnt)
       \<in> measure (\<lambda>(g, ul, k, region, queue, cnt).
                   card (neighbor_pool g - region) + length queue)"
    by simp
qed

declare expand_anonymization_loop.simps [simp del]

definition expand_anonymization_region ::
  "nx_graph \<Rightarrow> user_locations \<Rightarrow> node \<Rightarrow> int \<Rightarrow> py_error + node set" where
  "expand_anonymization_region g ul start_node k =
     (case ul start_node of
        None \<Rightarrow> Inl KeyError
      | Some c \<Rightarrow> expand_anonymization_loop g ul k ({start_node}, [start_node], c))"

section \<open>Direct k-anonymity engine (k\_anonymity.py)\<close>

text \<open>
  \<^verbatim>\<open>SmartCityGraph\<close>. Its networkx graph is built by \<^verbatim>\<open>_create_city_graph\<close> alone, which
  gives every node a \<^verbatim>\<open>pos\<close> attribute before it adds an edge; so each node of \<open>graph\<close>
  is bound to its position and its neighbour list. \<open>users\<close> and \<open>user_positions\<close> are the
  two dictionaries of the class, in insertion order (\<open>AList.update\<close> is Python's
  \<^verbatim>\<open>d[k] = v\<close>: it replaces the value of an existing key in place and appends a new key).
  The field \<^verbatim>\<open>grid_size\<close> is read by no modelled method and is left out.
\<close>

type_synonym pos_graph = "(node \<times> (int \<times> int) \<times> node list) list"

record SmartCityGraph =
  graph :: pos_graph
  users :: "(user \<times> node) list"
  user_positions :: "(user \<times> real \<times> real) list"

definition city_nodes :: "SmartCityGraph \<Rightarrow> node list" where
  "city_nodes c = map fst (graph c)"

definition city_pos :: "SmartCityGraph \<Rightarrow> node \<Rightarrow> py_error + int \<times> int" where
  "city_pos c n = (case map_of (graph c) n of None \<Rightarrow> Inl KeyError | Some (p, ns) \<Rightarrow> Inr p)"

definition city_neighbors :: "SmartCityGraph \<Rightarrow> node \<Rightarrow> py_error + node list" where
  "city_neighbors c n =
     (case map_of (graph c) n of None \<Rightarrow> Inl NetworkXError | Some (p, ns) \<Rightarrow> Inr ns)"

text \<open>\<^verbatim>\<open>get_users_at_node\<close> (86-92): a list comprehension over \<^verbatim>\<open>users.items()\<close>.\<close>

definition get_users_at_node :: "SmartCityGraph \<Rightarrow> node \<Rightarrow> user list" where
  "get_users_at_node c node_id =
     map fst (filter (\<lambda>(user_id, user_node). user_node = node_id) (users c))"

text \<open>
  \<^verbatim>\<open>move_user\<close> (94-102). The two draws of \<^verbatim>\<open>random.uniform(-0.3, 0.3)\<close> are the
  arguments \<open>jx\<close> and \<open>jy\<close>. The method has no raising path: inside the guard the node
  is in the graph, so its \<^verbatim>\<open>pos\<close> lookup succeeds.
\<close>

definition move_user :: "SmartCityGraph \<Rightarrow> user \<Rightarrow> node \<Rightarrow> real \<Rightarrow> real \<Rightarrow> SmartCityGraph" where
  "move_user c user_id new_node jx jy =
     (case map_of (graph c) new_node of
        None \<Rightarrow> c
      | Some ((base_x, base_y), ns) \<Rightarrow>
          c\<lparr>users := AList.update user_id new_node (users c),
            user_positions :=
              AList.update user_id (real_of_int base_x + jx, real_of_int base_y + jy)
                (user_positions c)\<rparr>)"

text \<open>
  \<^verbatim>\<open>KAnonymityPrivacyManager\<close>: the constructor (112-114) stores its two arguments. It is
  given a result type with an error branch so that "the constructor raises" can be said.
\<close>

record KAnonymityPrivacyManager =
  self_city :: SmartCityGraph
  self_k :: int

definition KAnonymityPrivacyManager_init ::
  "SmartCityGraph \<Rightarrow> int \<Rightarrow> py_error + KAnonymityPrivacyManager" where
  "KAnonymityPrivacyManager_init city_graph k = Inr \<lparr>self_city = city_graph, self_k = k\<rparr>"

text \<open>
  \<^verbatim>\<open>find_k_anonymous_region\<close> (116-146). The loop state is
  \<open>(visited, queue, region_nodes, users_in_region)\<close>; \<^verbatim>\<open>len\<close> of a set is \<open>card\<close>. The
  inner \<^verbatim>\<open>for neighbor\<close> loop does not change \<open>visited\<close>, so it appends to the queue, and
  adds to the region, exactly the neighbours that pass its test, in order. The returned
  \<^verbatim>\<open>list(users_in_region)\<close> has the elements of the set in an order Python does not
  fix; the model returns the set, of which the callers read the size only.
\<close>

type_synonym find_state = "node set \<times> node list \<times> node set \<times> user set"

function find_loop ::
  "SmartCityGraph \<Rightarrow> int \<Rightarrow> find_state \<Rightarrow> py_error + (node set \<times> user set)" where
  "find_loop c k (visited, queue, region_nodes, users_in_region) =
     (case queue of
        [] \<Rightarrow> Inr (region_nodes, users_in_region)
      | current_node # rest \<Rightarrow>
          if int (card users_in_region) < k then
            if current_node \<in> visited
            then find_loop c k (visited, rest, region_nodes, users_in_region)
            else
              let visited' = insert current_node visited;
                  users' = users_in_region \<union> set (get_users_at_node c current_node)
              in if int (card users') \<ge> k then Inr (region_nodes, users')
                 else (case city_neighbors c current_node of
                         Inl e \<Rightarrow> Inl e
                       | Inr ns \<Rightarrow>
                           find_loop c k
                             (visited',
                              rest @ filter (\<lambda>neighbor. neighbor \<notin> visited') ns,
                              region_nodes \<union> set (filter (\<lambda>neighbor. neighbor \<notin> visited') ns),
                              users'))
          else Inr (region_nodes, users_in_region))"
  by pat_completeness auto
termination
proof (relation "measures
    [\<lambda>(c, k, visited, queue, region_nodes, users_in_region). card (set (city_nodes c) - visited),
     \<lambda>(c, k, visited, queue, region_nodes, users_in_region). length queue]")
  fix c :: SmartCityGraph and k :: int and visited :: "node set" and queue :: "node list"
    and region_nodes :: "node set" and users_in_region :: "user set"
    and current_node rest x xa ns
  assume q: "queue = current_node # rest" and nv: "current_node \<notin> visited"
    and x: "x = insert current_node visited"
    and nb: "city_neighbors c current_node = Inr ns"
  from nb have "current_node \<in> set (city_nodes c)"
    by (auto simp: city_neighbors_def city_nodes_def split: option.splits
        dest!: map_of_SomeD intro: rev_image_eqI)
  with nv have "card (set (city_nodes c) - insert current_node visited)
                < card (set (city_nodes c) - visited)"
    by (intro psubset_card_mono) auto
  with x show "((c, k, x, rest @ filter (\<lambda>neighbor. neighbor \<notin> x) ns,
          region_nodes \<union> set (filter (\<lambda>neighbor. neighbor \<notin> x) ns), xa),
         c, k, visited, queue, region_nodes, users_in_region)
       \<in> measures
          [\<lambda>(c, k, visited, queue, region_nodes, users_in_region).
              card (set (city_nodes c) - visited),
           \<lambda>(c, k, visited, queue, region_nodes, users_in_region). length queue]"
    by simp
qed auto

declare find_loop.simps [simp del]

definition find_k_anonymous_region ::
  "KAnonymityPrivacyManager \<Rightarrow> user \<Rightarrow> py_error + (node set \<times> user set)" where
  "find_k_anonymous_region self query_user =
     (case map_of (users (self_city self)) query_user of
        None \<Rightarrow> Inl KeyError
      | Some query_node \<Rightarrow>
          find_loop (self_city self) (self_k self) ({}, [query_node], {query_node}, {query_user}))"

text \<open>
  \<^verbatim>\<open>get_anonymized_location\<close> (148-170). \<open>py_slice_to\<close> is the slice \<^verbatim>\<open>xs[:k]\<close> (a
  negative bound counts from the end). \<open>centroid\<close> is the tail of the method: the list
  of positions is built first (a node without position raises KeyError), then the two
  means are taken, dividing by \<^verbatim>\<open>len(positions)\<close>. The positions are integers, so the
  two sums are exact in any order; the true division is taken over the reals.
\<close>

definition py_slice_to :: "int \<Rightarrow> 'a list \<Rightarrow> 'a list" where
  "py_slice_to k xs = (if 0 \<le> k then take (nat k) xs else take (length xs - nat (- k)) xs)"

definition pos_or_origin :: "SmartCityGraph \<Rightarrow> node \<Rightarrow> int \<times> int" where
  "pos_or_origin c n = (case city_pos c n of Inl e \<Rightarrow> (0, 0) | Inr p \<Rightarrow> p)"

definition centroid :: "SmartCityGraph \<Rightarrow> node set \<Rightarrow> py_error + real \<times> real" where
  "centroid c region_nodes =
     (if \<exists>n \<in> region_nodes. isl (city_pos c n) then Inl KeyError
      else if card region_nodes = 0 then Inl ZeroDivisionError
      else Inr (real_of_int (\<Sum>n \<in> region_nodes. fst (pos_or_origin c n)) / real (card region_nodes),
                real_of_int (\<Sum>n \<in> region_nodes. snd (pos_or_origin c n)) / real (card region_nodes)))"

definition get_anonymized_location ::
  "KAnonymityPrivacyManager \<Rightarrow> user \<Rightarrow> py_error + (real \<times> real \<times> node set \<times> user set)" where
  "get_anonymized_location self query_user =
     (case find_k_anonymous_region self query_user of
        Inl e \<Rightarrow> Inl e
      | Inr (region_nodes, users_in_region) \<Rightarrow>
          let region_nodes' =
                (if int (card users_in_region) < self_k self
                 then set (py_slice_to (self_k self) (city_nodes (self_city self)))
                 else region_nodes)
          in (case centroid (self_city self) region_nodes' of
                Inl e \<Rightarrow> Inl e
              | Inr (centroid_x, centroid_y) \<Rightarrow>
                  Inr (centroid_x, centroid_y, region_nodes', users_in_region)))"

text \<open>
  Whether a call of \<^verbatim>\<open>get_anonymized_location\<close> takes the fallback branch (157-160): the
  search returned, with fewer than \<open>k\<close> users.
\<close>

definition fallback_taken :: "KAnonymityPrivacyManager \<Rightarrow> user \<Rightarrow> bool" where
  "fallback_taken self query_user =
     (case find_k_anonymous_region self query_user of
        Inl e \<Rightarrow> False
      | Inr (region_nodes, users_in_region) \<Rightarrow> int (card users_in_region) < self_k self)"

section \<open>Differential-privacy obfuscator and analyzer (differential\_privacy\_simulation.py)\<close>

text \<open>
  Python floats are read as reals. The constructor (28-36) stores the list it is given
  and sets the sensitivity to 1.0; like the manager's, it gets an error branch in its
  result type.
\<close>

record DifferentialPrivacyLocationObfuscator =
  epsilon_values :: "real list"
  sensitivity :: real

definition DifferentialPrivacyLocationObfuscator_init ::
  "real list \<Rightarrow> py_error + DifferentialPrivacyLocationObfuscator" where
  "DifferentialPrivacyLocationObfuscator_init evs = Inr \<lparr>epsilon_values = evs, sensitivity = 1\<rparr>"

text \<open>
  \<^verbatim>\<open>add_laplace_noise\<close> (38-44) and \<^verbatim>\<open>obfuscate_location\<close> (46-54). The scale is the
  float division \<^verbatim>\<open>self.sensitivity / epsilon\<close>, which raises ZeroDivisionError for
  \<open>epsilon = 0\<close>. \<^verbatim>\<open>np.random.laplace(0, scale)\<close> is numpy's, not the repository's: by its
  documentation it raises ValueError for a negative scale and otherwise draws from the
  Laplace distribution of that location and scale. The draw is an argument of the
  model: \<open>unit_draw\<close> is a variate of the standard Laplace distribution, and a variate
  of location \<open>loc\<close> and scale \<open>scale\<close> is \<open>loc + scale * unit_draw\<close>.
\<close>

definition np_random_laplace :: "real \<Rightarrow> real \<Rightarrow> real \<Rightarrow> py_error + real" where
  "np_random_laplace loc scale unit_draw =
     (if scale < 0 then Inl ValueError else Inr (loc + scale * unit_draw))"

definition add_laplace_noise ::
  "DifferentialPrivacyLocationObfuscator \<Rightarrow> real \<Rightarrow> real \<Rightarrow> real \<Rightarrow> py_error + real" where
  "add_laplace_noise self val epsilon unit_draw =
     (if epsilon = 0 then Inl ZeroDivisionError
      else let scale = sensitivity self / epsilon
           in case np_random_laplace 0 scale unit_draw of
                Inl e \<Rightarrow> Inl e
              | Inr noise \<Rightarrow> Inr (val + noise))"

definition obfuscate_location ::
  "DifferentialPrivacyLocationObfuscator \<Rightarrow> real \<Rightarrow> real \<Rightarrow> real \<Rightarrow> real \<times> real \<Rightarrow>
   py_error + real \<times> real" where
  "obfuscate_location self x y epsilon unit_draws =
     (case add_laplace_noise self x epsilon (fst unit_draws) of
        Inl e \<Rightarrow> Inl e
      | Inr noisy_x \<Rightarrow>
          (case add_laplace_noise self y epsilon (snd unit_draws) of
             Inl e \<Rightarrow> Inl e
           | Inr noisy_y \<Rightarrow> Inr (noisy_x, noisy_y)))"

text \<open>\<^verbatim>\<open>calculate_privacy_level\<close> (139-149).\<close>

definition calculate_privacy_level :: "real \<Rightarrow> string" where
  "calculate_privacy_level epsilon =
     (if epsilon \<ge> 5 then ''Low Privacy''
      else if epsilon \<ge> 2 then ''Medium Privacy''
      else if epsilon \<ge> 1 then ''High Privacy''
      else if epsilon \<ge> 1 / 2 then ''Very High Privacy''
      else ''Maximum Privacy'')"

text \<open>
  \<^verbatim>\<open>calculate_utility_loss\<close> (151-159) builds a dictionary from five numpy reductions,
  evaluated in the order written. numpy itself is not part of the repository; the five
  functions below follow its documented behaviour: on an empty array \<^verbatim>\<open>np.mean\<close>,
  \<^verbatim>\<open>np.median\<close> and \<^verbatim>\<open>np.std\<close> return \<^verbatim>\<open>nan\<close> (with a RuntimeWarning, which is not an
  exception), while \<^verbatim>\<open>np.max\<close> and \<^verbatim>\<open>np.min\<close> raise ValueError ("zero-size array to
  reduction operation maximum which has no identity").
\<close>

datatype np_float = Finite real | NaN

definition np_mean :: "real list \<Rightarrow> np_float" where
  "np_mean xs = (if xs = [] then NaN else Finite (sum_list xs / real (length xs)))"

definition np_median :: "real list \<Rightarrow> np_float" where
  "np_median xs =
     (if xs = [] then NaN
      else let s = sort xs; n = length xs
           in Finite (if even n then (s ! (n div 2 - 1) + s ! (n div 2)) / 2 else s ! (n div 2)))"

definition np_std :: "real list \<Rightarrow> np_float" where
  "np_std xs =
     (if xs = [] then NaN
      else let m = sum_list xs / real (length xs)
           in Finite (sqrt (sum_list (map (\<lambda>x. (x - m)\<^sup>2) xs) / real (length xs))))"

definition np_max :: "real list \<Rightarrow> py_error + np_float" where
  "np_max xs = (if xs = [] then Inl ValueError else Inr (Finite (Max (set xs))))"

definition np_min :: "real list \<Rightarrow> py_error + np_float" where
  "np_min xs = (if xs = [] then Inl ValueError else Inr (Finite (Min (set xs))))"

record utility_loss =
  mean_error :: np_float
  median_error :: np_float
  std_error :: np_float
  max_error :: np_float
  min_error :: np_float

definition calculate_utility_loss :: "real list \<Rightarrow> py_error + utility_loss" where
  "calculate_utility_loss errors =
     (let mean_e = np_mean errors; median_e = np_median errors; std_e = np_std errors
      in case np_max errors of
           Inl e \<Rightarrow> Inl e
         | Inr max_e \<Rightarrow>
             (case np_min errors of
                Inl e \<Rightarrow> Inl e
              | Inr min_e \<Rightarrow>
                  Inr \<lparr>mean_error = mean_e, median_error = median_e, std_error = std_e,
                       max_error = max_e, min_error = min_e\<rparr>))"

section \<open>Notions of the specification\<close>

text \<open>
  The aggregate population of a region: the sum of the per-node counts over the node
  set, every node counted once.
\<close>

definition population :: "user_locations \<Rightarrow> node set \<Rightarrow> int" where
  "population ul r = (\<Sum>n \<in> r. case ul n of None \<Rightarrow> 0 | Some p \<Rightarrow> p)"

text \<open>
  The edge relation of a graph, and the nodes whose hop distance from \<open>n\<close> is at most
  \<open>d\<close>: those that a walk of at most \<open>d\<close> edges reaches.
\<close>

definition edges :: "nx_graph \<Rightarrow> (node \<times> node) set" where
  "edges g = {(u, v). \<exists>ns. map_of g u = Some ns \<and> v \<in> set ns}"

definition within_hops :: "nx_graph \<Rightarrow> node \<Rightarrow> nat \<Rightarrow> node set" where
  "within_hops g n d = {v. \<exists>i \<le> d. (n, v) \<in> edges g ^^ i}"

text \<open>
  What networkx and the population step guarantee of the graphs the engine receives:
  every neighbour is a node of the graph, and \<^verbatim>\<open>user_locations\<close> has an entry for
  every node (it is initialised as \<^verbatim>\<open>{node: 0 for node in G.nodes()}\<close>).
\<close>

definition well_formed :: "nx_graph \<Rightarrow> user_locations \<Rightarrow> bool" where
  "well_formed g ul \<longleftrightarrow>
     neighbor_pool g \<subseteq> set (graph_nodes g) \<and> set (graph_nodes g) \<subseteq> dom ul"

text \<open>A connected graph: every node reaches every node along edges.\<close>

definition graph_connected :: "nx_graph \<Rightarrow> bool" where
  "graph_connected g \<longleftrightarrow>
     (\<forall>u \<in> set (graph_nodes g). \<forall>v \<in> set (graph_nodes g). (u, v) \<in> (edges g)\<^sup>*)"

text \<open>
  The class invariant of \<^verbatim>\<open>SmartCityGraph\<close> that \<^verbatim>\<open>add_users\<close> and \<^verbatim>\<open>move_user\<close>
  establish: every user stands on a node of the graph.
\<close>

definition users_on_graph :: "SmartCityGraph \<Rightarrow> bool" where
  "users_on_graph c \<longleftrightarrow> snd ` set (users c) \<subseteq> set (city_nodes c)"

text \<open>
  The invariant of the loop of \<^verbatim>\<open>compute_density\<close> for seed \<open>n\<close> and depth \<open>D\<close>, at
  level \<open>t\<close>. The queue holds the nodes \<open>A\<close> of level \<open>t\<close> that are still to be
  expanded, followed by the nodes \<open>B\<close> found so far at level \<open>t + 1\<close>; everything within
  \<open>t\<close> hops is visited, \<open>B\<close> is what is visited beyond that, and every node of level at
  most \<open>t\<close> that has left the queue has all its neighbours visited.
\<close>

definition level_queue :: "nat \<Rightarrow> node list \<Rightarrow> node list \<Rightarrow> (node \<times> int) list" where
  "level_queue t A B = map (\<lambda>v. (v, int t)) A @ map (\<lambda>v. (v, int t + 1)) B"

definition density_inv ::
  "nx_graph \<Rightarrow> user_locations \<Rightarrow> node \<Rightarrow> nat \<Rightarrow> nat \<Rightarrow> node list \<Rightarrow> node list \<Rightarrow>
   node set \<Rightarrow> int \<Rightarrow> bool" where
  "density_inv g ul n D t A B visited cnt \<longleftrightarrow>
     t \<le> D \<and> cnt = population ul visited \<and>
     within_hops g n t \<subseteq> visited \<and> visited \<subseteq> within_hops g n (Suc t) \<and>
     visited \<subseteq> within_hops g n D \<and>
     set A \<subseteq> within_hops g n t \<and> set B = visited - within_hops g n t \<and>
     (t < D \<longrightarrow> (\<forall>u \<in> within_hops g n t - set A. edges g `` {u} \<subseteq> visited))"

section \<open>Sample inputs\<close>

text \<open>
  The 2 x 2 grid that \<^verbatim>\<open>nx.grid_2d_graph(2, 2)\<close> gives after
  \<^verbatim>\<open>convert_node_labels_to_integers\<close>: a cycle 0 - 1 - 3 - 2 - 0, with 15 users.
\<close>

definition grid2 :: nx_graph where
  "grid2 = [(0, [2, 1]), (1, [0, 3]), (2, [0, 3]), (3, [1, 2])]"

definition grid2_users :: user_locations where
  "grid2_users = [0 \<mapsto> 1, 1 \<mapsto> 2, 2 \<mapsto> 4, 3 \<mapsto> 8]"

text \<open>A city of one intersection with one user, and one of two joined intersections.\<close>

definition one_node_city :: SmartCityGraph where
  "one_node_city =
     \<lparr>graph = [(0, (0, 0), [])], users = [(0, 0)], user_positions = [(0, (0, 0))]\<rparr>"

definition two_node_city :: SmartCityGraph where
  "two_node_city =
     \<lparr>graph = [(0, (0, 0), [1]), (1, (0, 1), [0])],
      users = [(0, 0), (1, 1)],
      user_positions = [(0, (1 / 10, 0)), (1, (0, 9 / 10))]\<rparr>"

section \<open>Classification by the privacy budget\<close>

text \<open>
  C9 (amended). \<^verbatim>\<open>calculate_privacy_level\<close> is a five-tier bucketing by the fixed
  thresholds 5, 2, 1 and 0.5, and its labels all end in "Privacy": "Low Privacy" for
  \<open>\<epsilon> \<ge> 5\<close>, "Medium Privacy" for \<open>2 \<le> \<epsilon> < 5\<close>, "High Privacy" for
  \<open>1 \<le> \<epsilon> < 2\<close>, "Very High Privacy" for \<open>0.5 \<le> \<epsilon> < 1\<close> and
  "Maximum Privacy" below 0.5; in particular 5.0 is "Low Privacy" and 0.49 is
  "Maximum Privacy".
\<close>

theorem calculate_privacy_level_tiers:
  "(5 \<le> \<epsilon> \<longrightarrow> calculate_privacy_level \<epsilon> = ''Low Privacy'') \<and>
   (2 \<le> \<epsilon> \<and> \<epsilon> < 5 \<longrightarrow> calculate_privacy_level \<epsilon> = ''Medium Privacy'') \<and>
   (1 \<le> \<epsilon> \<and> \<epsilon> < 2 \<longrightarrow> calculate_privacy_level \<epsilon> = ''High Privacy'') \<and>
   (1 / 2 \<le> \<epsilon> \<and> \<epsilon> < 1 \<longrightarrow> calculate_privacy_level \<epsilon> = ''Very High Privacy'') \<and>
   (\<epsilon> < 1 / 2 \<longrightarrow> calculate_privacy_level \<epsilon> = ''Maximum Privacy'') \<and>
   calculate_privacy_level 5 = ''Low Privacy'' \<and>
   calculate_privacy_level (49 / 100) = ''Maximum Privacy''"
  by (simp add: calculate_privacy_level_def)

text \<open>The theorem at one budget of each tier.\<close>

theorem calculate_privacy_level_tiers_witness:
  "calculate_privacy_level 7 = ''Low Privacy'' \<and>
   calculate_privacy_level 3 = ''Medium Privacy'' \<and>
   calculate_privacy_level (3 / 2) = ''High Privacy'' \<and>
   calculate_privacy_level (3 / 4) = ''Very High Privacy'' \<and>
   calculate_privacy_level (1 / 10) = ''Maximum Privacy''"
  using calculate_privacy_level_tiers [of 7] calculate_privacy_level_tiers [of 3]
    calculate_privacy_level_tiers [of "3 / 2"] calculate_privacy_level_tiers [of "3 / 4"]
    calculate_privacy_level_tiers [of "1 / 10"]
  by simp

text \<open>
  The claim as written names the three middle tiers "Medium", "High" and "Very High";
  the function returns none of these strings.
\<close>

theorem calculate_privacy_level_labels_counterexample:
  "calculate_privacy_level 2 \<noteq> ''Medium'' \<and>
   calculate_privacy_level 1 \<noteq> ''High'' \<and>
   calculate_privacy_level (1 / 2) \<noteq> ''Very High''"
  by (simp add: calculate_privacy_level_def)


section \<open>Mobility\<close>

text \<open>
  C10. For every user id and every target node id that is not a node of the graph,
  \<^verbatim>\<open>move_user\<close> is a no-op: the city it leaves is the city it was given (the node
  assignment and the display position of this user and of every other user are
  unchanged), and nothing is raised.
\<close>

theorem move_user_unknown_node_noop:
  "new_node \<notin> set (city_nodes c) \<Longrightarrow> move_user c user_id new_node jx jy = c"
proof -
  assume "new_node \<notin> set (city_nodes c)"
  then have "map_of (graph c) new_node = None"
    by (simp add: city_nodes_def map_of_eq_None_iff)
  then show ?thesis
    by (simp add: move_user_def)
qed

theorem move_user_unknown_node_noop_witness:
  "7 \<notin> set (city_nodes two_node_city) \<and>
   move_user two_node_city 0 7 (1 / 5) (- 1 / 10) = two_node_city \<and>
   move_user two_node_city 5 7 0 0 = two_node_city"
proof -
  have h: "7 \<notin> set (city_nodes two_node_city)"
    by (simp add: city_nodes_def two_node_city_def)
  from h move_user_unknown_node_noop [OF h, of 0 "1 / 5" "- 1 / 10"]
    move_user_unknown_node_noop [OF h, of 5 0 0]
  show ?thesis by simp
qed

text \<open>For contrast, a move to a node of the graph does change the city.\<close>

lemma move_user_known_node_moves:
  "users (move_user two_node_city 0 1 0 0) = [(0, 1), (1, 1)]"
  by (simp add: move_user_def two_node_city_def)

lemma alist_update_entries: "set (AList.update k v al) \<subseteq> insert (k, v) (set al)"
  by (induction al) auto

lemma move_user_keeps_users_on_graph:
  "users_on_graph c \<Longrightarrow> users_on_graph (move_user c user_id new_node jx jy)"
proof (cases "map_of (graph c) new_node")
  case None
  assume "users_on_graph c"
  with None show ?thesis by (simp add: move_user_def)
next
  case (Some e)
  assume inv: "users_on_graph c"
  obtain bx "by" ns where e: "e = ((bx, by), ns)" by (cases e) auto
  from Some have "new_node \<in> set (city_nodes c)"
    by (auto simp: city_nodes_def dest!: map_of_SomeD intro: rev_image_eqI)
  moreover have "snd ` set (AList.update user_id new_node (users c))
                 \<subseteq> insert new_node (snd ` set (users c))"
    using alist_update_entries [of user_id new_node "users c"] by force
  ultimately show ?thesis
    using inv Some e by (auto simp: users_on_graph_def move_user_def city_nodes_def)
qed

section \<open>Summary statistics\<close>

text \<open>
  C7 (the code departs from the claim). On the empty error sequence
  \<^verbatim>\<open>calculate_utility_loss\<close> does not return a sentinel: the fourth entry of its
  dictionary is \<^verbatim>\<open>np.max(errors)\<close>, which raises ValueError.
\<close>

theorem calculate_utility_loss_empty_raises:
  "calculate_utility_loss [] = Inl ValueError"
  by (simp add: calculate_utility_loss_def np_max_def)

text \<open>On a non-empty sequence the function returns its five statistics.\<close>

lemma calculate_utility_loss_sample:
  "calculate_utility_loss [3, 1, 2] =
     Inr \<lparr>mean_error = Finite 2, median_error = Finite 2, std_error = Finite (sqrt (2 / 3)),
          max_error = Finite 3, min_error = Finite 1\<rparr>"
  by (simp add: calculate_utility_loss_def np_max_def np_min_def np_mean_def np_median_def
      np_std_def Let_def power2_eq_square)

section \<open>Lookups of unknown ids\<close>

text \<open>
  C8 (amended). The lookup of a user id that is not a key of \<^verbatim>\<open>users\<close> (the first
  statement of \<^verbatim>\<open>find_k_anonymous_region\<close>, and so of \<^verbatim>\<open>get_anonymized_location\<close>)
  fails with KeyError, and so does the lookup of the population of a node that is not
  a key of \<^verbatim>\<open>user_locations\<close> (the first lookup of \<^verbatim>\<open>compute_density\<close> and of both
  region expansions). \<^verbatim>\<open>get_users_at_node\<close> does not fail on a node id that is not in
  the graph: in a city whose users stand on nodes of the graph it returns the empty
  list.
\<close>

theorem unknown_entity_lookups:
  "(map_of (users (self_city self)) query_user = None \<longrightarrow>
      find_k_anonymous_region self query_user = Inl KeyError \<and>
      get_anonymized_location self query_user = Inl KeyError) \<and>
   (ul n = None \<longrightarrow>
      compute_density g ul n depth = Inl KeyError \<and>
      expand_region g ul n k = Inl KeyError \<and>
      expand_anonymization_region g ul n k = Inl KeyError) \<and>
   (users_on_graph c \<and> node_id \<notin> set (city_nodes c) \<longrightarrow> get_users_at_node c node_id = [])"
proof (intro conjI impI)
  assume "map_of (users (self_city self)) query_user = None"
  then show "find_k_anonymous_region self query_user = Inl KeyError"
    and "get_anonymized_location self query_user = Inl KeyError"
    by (simp_all add: find_k_anonymous_region_def get_anonymized_location_def)
next
  assume "ul n = None"
  then show "compute_density g ul n depth = Inl KeyError"
    and "expand_region g ul n k = Inl KeyError"
    and "expand_anonymization_region g ul n k = Inl KeyError"
    by (simp_all add: compute_density_def expand_region_def expand_anonymization_region_def)
next
  assume "users_on_graph c \<and> node_id \<notin> set (city_nodes c)"
  then have "node_id \<notin> snd ` set (users c)"
    by (auto simp: users_on_graph_def)
  then have "filter (\<lambda>(user_id, user_node). user_node = node_id) (users c) = []"
    by (auto simp: filter_empty_conv image_iff)
  then show "get_users_at_node c node_id = []"
    by (simp add: get_users_at_node_def)
qed

theorem unknown_entity_lookups_witness:
  "map_of (users two_node_city) 9 = None \<and>
   find_k_anonymous_region \<lparr>self_city = two_node_city, self_k = 2\<rparr> 9 = Inl KeyError \<and>
   get_anonymized_location \<lparr>self_city = two_node_city, self_k = 2\<rparr> 9 = Inl KeyError \<and>
   grid2_users 9 = None \<and>
   compute_density grid2 grid2_users 9 1 = Inl KeyError \<and>
   expand_region grid2 grid2_users 9 5 = Inl KeyError \<and>
   expand_anonymization_region grid2 grid2_users 9 5 = Inl KeyError \<and>
   users_on_graph two_node_city \<and> 5 \<notin> set (city_nodes two_node_city) \<and>
   get_users_at_node two_node_city 5 = []"
proof -
  have h1: "map_of (users (self_city \<lparr>self_city = two_node_city, self_k = 2\<rparr>)) 9 = None"
    by (simp add: two_node_city_def)
  have h2: "grid2_users 9 = None"
    by (simp add: grid2_users_def)
  have h3: "users_on_graph two_node_city \<and> 5 \<notin> set (city_nodes two_node_city)"
    by (simp add: users_on_graph_def city_nodes_def two_node_city_def)
  from h1 h2 h3
    unknown_entity_lookups [of "\<lparr>self_city = two_node_city, self_k = 2\<rparr>" 9
      grid2_users 9 grid2 1 5 two_node_city 5]
  show ?thesis by simp
qed

text \<open>
  The claim as written fails at \<^verbatim>\<open>get_users_at_node\<close>: node 5 is not in the one-node
  city, and the lookup of the users at node 5 returns the empty list.
\<close>

theorem get_users_at_node_unknown_counterexample:
  "5 \<notin> set (city_nodes one_node_city) \<and> get_users_at_node one_node_city 5 = []"
  by (simp add: city_nodes_def one_node_city_def get_users_at_node_def)

section \<open>The fallback of the anonymized location\<close>

text \<open>
  C1 (amended). When \<^verbatim>\<open>find_k_anonymous_region\<close> returns fewer than \<open>k\<close> distinct users,
  \<^verbatim>\<open>get_anonymized_location\<close> replaces the region by the first \<open>k\<close> nodes of the
  graph's node enumeration and returns it in the same 4-tuple
  \<open>(centroid_x, centroid_y, region_nodes, users_in_region)\<close> as a successful call; the
  result has no flag and no variant of its own. The users returned are those the
  search found, so the fallback was taken exactly when fewer than \<open>k\<close> users are
  returned: the caller can tell it only by comparing that number with \<open>k\<close> itself.
\<close>

theorem fallback_returns_plain_tuple:
  "get_anonymized_location self query_user = Inr (cx, cy, region_nodes, users_in_region) \<Longrightarrow>
   (fallback_taken self query_user \<longleftrightarrow> int (card users_in_region) < self_k self) \<and>
   (fallback_taken self query_user \<longrightarrow>
      region_nodes = set (py_slice_to (self_k self) (city_nodes (self_city self)))) \<and>
   (\<exists>found. find_k_anonymous_region self query_user = Inr (found, users_in_region) \<and>
      (\<not> fallback_taken self query_user \<longrightarrow> region_nodes = found))"
  by (auto simp: get_anonymized_location_def fallback_taken_def Let_def
      split: sum.splits prod.splits if_splits)

text \<open>Sample runs of the search and of the method, used below.\<close>

lemma find_one_node_city_k2:
  "find_k_anonymous_region \<lparr>self_city = one_node_city, self_k = 2\<rparr> 0 = Inr ({0}, {0})"
  by (simp add: find_k_anonymous_region_def find_loop.simps one_node_city_def
      get_users_at_node_def city_neighbors_def Let_def)

lemma find_one_node_city_k1:
  "find_k_anonymous_region \<lparr>self_city = one_node_city, self_k = 1\<rparr> 0 = Inr ({0}, {0})"
  by (simp add: find_k_anonymous_region_def find_loop.simps one_node_city_def)

lemma find_two_node_city_k3:
  "find_k_anonymous_region \<lparr>self_city = two_node_city, self_k = 3\<rparr> 0 = Inr ({0, 1}, {0, 1})"
  by (auto simp: find_k_anonymous_region_def find_loop.simps two_node_city_def
      get_users_at_node_def city_neighbors_def Let_def)

lemma centroid_one_node_city: "centroid one_node_city {0} = Inr (0, 0)"
  by (simp add: centroid_def city_pos_def pos_or_origin_def one_node_city_def)

lemma centroid_two_node_city: "centroid two_node_city {0, 1} = Inr (0, 1 / 2)"
  by (simp add: centroid_def city_pos_def pos_or_origin_def two_node_city_def)

lemma slice_two_node_city: "set (py_slice_to 3 (city_nodes two_node_city)) = {0, 1}"
  by (simp add: py_slice_to_def city_nodes_def two_node_city_def)

lemma slice_one_node_city: "set (py_slice_to 2 (city_nodes one_node_city)) = {0}"
  by (simp add: py_slice_to_def city_nodes_def one_node_city_def)

lemma anonymized_two_node_city_k3:
  "get_anonymized_location \<lparr>self_city = two_node_city, self_k = 3\<rparr> 0
   = Inr (0, 1 / 2, {0, 1}, {0, 1})"
  unfolding get_anonymized_location_def find_two_node_city_k3
  by (simp add: Let_def slice_two_node_city centroid_two_node_city)


theorem fallback_returns_plain_tuple_witness:
  "get_anonymized_location \<lparr>self_city = two_node_city, self_k = 3\<rparr> 0
     = Inr (0, 1 / 2, {0, 1}, {0, 1}) \<and>
   fallback_taken \<lparr>self_city = two_node_city, self_k = 3\<rparr> 0 \<and>
   int (card {0 :: user, 1}) < 3 \<and>
   {0 :: node, 1} = set (py_slice_to 3 (city_nodes two_node_city))"
proof -
  note run = anonymized_two_node_city_k3
  have small: "int (card {0 :: user, 1}) < 3"
    by simp
  from fallback_returns_plain_tuple [OF run] small
  have "fallback_taken \<lparr>self_city = two_node_city, self_k = 3\<rparr> 0"
    by simp
  with fallback_returns_plain_tuple [OF run] run small show ?thesis
    by simp
qed

text \<open>
  The claim as written fails. In the one-node city the call with \<open>k = 2\<close> takes the
  fallback and the call with \<open>k = 1\<close> does not, and both return the same value: nothing
  in the result sets the fallback apart.
\<close>

theorem fallback_unflagged_counterexample:
  "fallback_taken \<lparr>self_city = one_node_city, self_k = 2\<rparr> 0 \<and>
   \<not> fallback_taken \<lparr>self_city = one_node_city, self_k = 1\<rparr> 0 \<and>
   get_anonymized_location \<lparr>self_city = one_node_city, self_k = 2\<rparr> 0 = Inr (0, 0, {0}, {0}) \<and>
   get_anonymized_location \<lparr>self_city = one_node_city, self_k = 1\<rparr> 0 = Inr (0, 0, {0}, {0})"
proof -
  have "fallback_taken \<lparr>self_city = one_node_city, self_k = 2\<rparr> 0"
    by (simp add: fallback_taken_def find_one_node_city_k2)
  moreover have "\<not> fallback_taken \<lparr>self_city = one_node_city, self_k = 1\<rparr> 0"
    by (simp add: fallback_taken_def find_one_node_city_k1)
  moreover have "get_anonymized_location \<lparr>self_city = one_node_city, self_k = 2\<rparr> 0
                 = Inr (0, 0, {0}, {0})"
    unfolding get_anonymized_location_def find_one_node_city_k2
    by (simp add: Let_def slice_one_node_city centroid_one_node_city)
  moreover have "get_anonymized_location \<lparr>self_city = one_node_city, self_k = 1\<rparr> 0
                 = Inr (0, 0, {0}, {0})"
    unfolding get_anonymized_location_def find_one_node_city_k1
    by (simp add: Let_def centroid_one_node_city)
  ultimately show ?thesis by simp
qed

section \<open>Region expansion\<close>

subsection \<open>The inner scan and the loops\<close>

lemma neighbors_edges: "neighbors g u = Inr ns \<Longrightarrow> set ns = edges g `` {u}"
  by (auto simp: neighbors_def edges_def split: option.splits)

lemma neighbors_of_node: "u \<in> set (graph_nodes g) \<Longrightarrow> \<exists>ns. neighbors g u = Inr ns"
  by (cases "map_of g u") (auto simp: neighbors_def graph_nodes_def map_of_eq_None_iff)

lemma population_insert:
  "finite r \<Longrightarrow> x \<notin> r \<Longrightarrow> ul x = Some p \<Longrightarrow> population ul (insert x r) = population ul r + p"
  by (simp add: population_def)

lemma expand_scan_total:
  "set ns \<subseteq> dom ul \<Longrightarrow> \<exists>s'. expand_scan ul k ns s = Inr s'"
proof (induction ns arbitrary: s)
  case Nil
  show ?case by (cases s) simp
next
  case (Cons neigh ns)
  obtain region queue cnt where s: "s = (region, queue, cnt)" by (cases s) auto
  from Cons.prems obtain p where "ul neigh = Some p" by auto
  with Cons.IH Cons.prems s show ?case by auto
qed

lemma expand_scan_result:
  "expand_scan ul k ns (region, queue, cnt) = Inr (region', queue', cnt') \<Longrightarrow>
   finite region \<Longrightarrow> cnt = population ul region \<Longrightarrow>
   region \<subseteq> region' \<and> region' \<subseteq> region \<union> set ns \<and>
   set queue' = set queue \<union> (region' - region) \<and>
   cnt' = population ul region' \<and> (k \<le> cnt' \<or> set ns \<subseteq> region')"
proof (induction ns arbitrary: region queue cnt)
  case Nil
  then show ?case by auto
next
  case (Cons neigh ns)
  show ?case
  proof (cases "neigh \<in> region")
    case True
    with Cons.prems have "expand_scan ul k ns (region, queue, cnt) = Inr (region', queue', cnt')"
      by simp
    from Cons.IH [OF this Cons.prems(2,3)] True show ?thesis by auto
  next
    case False
    with Cons.prems(1) obtain p where p: "ul neigh = Some p"
      by (auto split: option.splits)
    from Cons.prems False p
    have pop: "cnt + p = population ul (insert neigh region)"
      by (simp add: population_insert)
    show ?thesis
    proof (cases "cnt + p \<ge> k")
      case True
      with Cons.prems(1) False p pop show ?thesis by auto
    next
      case stay: False
      with Cons.prems(1) False p
      have run: "expand_scan ul k ns (insert neigh region, queue @ [neigh], cnt + p)
                 = Inr (region', queue', cnt')"
        by simp
      from Cons.prems have "finite (insert neigh region)" by simp
      from Cons.IH [OF run this pop] False show ?thesis by auto
    qed
  qed
qed

lemma expand_scan_mono:
  "expand_scan ul k ns (region, queue, cnt) = Inr (region', queue', cnt') \<Longrightarrow> region \<subseteq> region'"
proof (induction ns arbitrary: region queue cnt)
  case Nil
  then show ?case by simp
next
  case (Cons neigh ns)
  show ?case
  proof (cases "neigh \<in> region")
    case True
    with Cons show ?thesis by simp
  next
    case False
    with Cons.prems obtain p where p: "ul neigh = Some p"
      by (auto split: option.splits)
    show ?thesis
    proof (cases "cnt + p \<ge> k")
      case True
      with Cons.prems False p show ?thesis by auto
    next
      case stay: False
      with Cons.prems False p
      have "expand_scan ul k ns (insert neigh region, queue @ [neigh], cnt + p)
            = Inr (region', queue', cnt')"
        by simp
      from Cons.IH [OF this] show ?thesis by blast
    qed
  qed
qed

lemma expand_region_loop_keeps:
  "expand_region_loop g ul k (region, queue, cnt) = Inr r \<Longrightarrow> x \<in> region \<Longrightarrow> x \<in> r"
proof (induction g ul k "(region, queue, cnt)" arbitrary: region queue cnt rule: expand_region_loop.induct)
  case (1 g ul k region queue cnt)
  show ?case
  proof (cases "cnt < k")
    case False
    with "1.prems" show ?thesis by (simp add: expand_region_loop.simps)
  next
    case True
    with "1.prems"(1) obtain current rest ns region' queue' cnt' where
      q: "queue = current # rest" and nb: "neighbors g current = Inr ns"
      and sc: "expand_scan ul k ns (region, rest, cnt) = Inr (region', queue', cnt')"
      and run: "expand_region_loop g ul k (region', queue', cnt') = Inr r"
      by (subst (asm) expand_region_loop.simps) (auto split: list.splits sum.splits)
    from expand_scan_mono [OF sc] "1.prems" have "x \<in> region'" by blast
    from "1.hyps" [OF True q nb sc run this] show ?thesis .
  qed
qed

lemma expand_anonymization_loop_keeps:
  "expand_anonymization_loop g ul k (region, queue, cnt) = Inr r \<Longrightarrow> x \<in> region \<Longrightarrow> x \<in> r"
proof (induction g ul k "(region, queue, cnt)" arbitrary: region queue cnt
    rule: expand_anonymization_loop.induct)
  case (1 g ul k region queue cnt)
  show ?case
  proof (cases "cnt < k \<and> queue \<noteq> []")
    case False
    with "1.prems" show ?thesis
      by (subst (asm) expand_anonymization_loop.simps) (auto split: list.splits)
  next
    case True
    with "1.prems"(1) obtain current rest ns region' queue' cnt' where
      q: "queue = current # rest" and nb: "neighbors g current = Inr ns"
      and sc: "expand_scan ul k ns (region, rest, cnt) = Inr (region', queue', cnt')"
      and run: "expand_anonymization_loop g ul k (region', queue', cnt') = Inr r"
      by (subst (asm) expand_anonymization_loop.simps) (auto split: list.splits sum.splits)
    from expand_scan_mono [OF sc] "1.prems" have "x \<in> region'" by blast
    from True have "cnt < k" by simp
    from "1.hyps" [OF this q nb sc run \<open>x \<in> region'\<close>] show ?thesis .
  qed
qed

lemma find_loop_keeps:
  "find_loop c k (visited, queue, region_nodes, us) = Inr (rn, us') \<Longrightarrow> x \<in> region_nodes \<Longrightarrow> x \<in> rn"
proof (induction c k "(visited, queue, region_nodes, us)" arbitrary: visited queue region_nodes us rule: find_loop.induct)
  case (1 c k visited queue region_nodes us)
  show ?case
  proof (cases queue)
    case Nil
    with "1.prems" show ?thesis by (simp add: find_loop.simps)
  next
    case (Cons current_node rest)
    show ?thesis
    proof (cases "int (card us) < k")
      case False
      with Cons "1.prems" show ?thesis by (simp add: find_loop.simps)
    next
      case lt: True
      show ?thesis
      proof (cases "current_node \<in> visited")
        case True
        with "1.prems"(1) Cons lt have "find_loop c k (visited, rest, region_nodes, us) = Inr (rn, us')"
          by (subst (asm) find_loop.simps) simp
        from "1.hyps"(1) [OF Cons lt True this "1.prems"(2)] show ?thesis .
      next
        case nv: False
        show ?thesis
        proof (cases "int (card (us \<union> set (get_users_at_node c current_node))) \<ge> k")
          case True
          with "1.prems" Cons lt nv show ?thesis
            by (subst (asm) find_loop.simps) (simp add: Let_def)
        next
          case more: False
          with "1.prems"(1) Cons lt nv obtain ns where
            nb: "city_neighbors c current_node = Inr ns"
            and run: "find_loop c k (insert current_node visited,
                        rest @ filter (\<lambda>n. n \<notin> insert current_node visited) ns,
                        region_nodes \<union> set (filter (\<lambda>n. n \<notin> insert current_node visited) ns),
                        us \<union> set (get_users_at_node c current_node)) = Inr (rn, us')"
            by (subst (asm) find_loop.simps) (auto simp: Let_def split: sum.splits)
          from "1.hyps"(2) [OF Cons lt nv refl refl more nb run] "1.prems"(2)
          show ?thesis by simp
        qed
      qed
    qed
  qed
qed

lemma closed_region_is_everything:
  assumes conn: "graph_connected g" and seed: "seed \<in> region" and node: "seed \<in> set (graph_nodes g)"
    and closed: "\<forall>u \<in> region. edges g `` {u} \<subseteq> region"
  shows "set (graph_nodes g) \<subseteq> region"
proof
  fix v assume "v \<in> set (graph_nodes g)"
  with conn node have "(seed, v) \<in> (edges g)\<^sup>*"
    by (simp add: graph_connected_def)
  then show "v \<in> region"
  proof (induction rule: rtrancl_induct)
    case base
    from seed show ?case by simp
  next
    case (step y z)
    with closed show ?case by blast
  qed
qed

lemma expand_region_loop_reaches_k:
  "well_formed g ul \<Longrightarrow> graph_connected g \<Longrightarrow>
   k \<le> population ul (set (graph_nodes g)) \<Longrightarrow>
   seed \<in> region \<Longrightarrow> region \<subseteq> set (graph_nodes g) \<Longrightarrow> set queue \<subseteq> region \<Longrightarrow>
   cnt = population ul region \<Longrightarrow>
   k \<le> cnt \<or> (\<forall>u \<in> region - set queue. edges g `` {u} \<subseteq> region) \<Longrightarrow>
   \<exists>r. expand_region_loop g ul k (region, queue, cnt) = Inr r \<and> k \<le> population ul r \<and> seed \<in> r"
proof (induction g ul k "(region, queue, cnt)" arbitrary: region queue cnt
    rule: expand_region_loop.induct)
  case (1 g ul k region queue cnt)
  note wf = "1.prems"(1) and conn = "1.prems"(2) and tot = "1.prems"(3)
    and seed = "1.prems"(4) and sub = "1.prems"(5) and qsub = "1.prems"(6)
    and cnt = "1.prems"(7) and inv = "1.prems"(8)
  show ?case
  proof (cases "cnt < k")
    case False
    with seed cnt show ?thesis
      by (simp add: expand_region_loop.simps)
  next
    case True
    with inv have closed: "\<forall>u \<in> region - set queue. edges g `` {u} \<subseteq> region"
      by auto
    have fin: "finite region"
      using sub by (meson finite_set finite_subset)
    have "queue \<noteq> []"
    proof
      assume "queue = []"
      with closed have "\<forall>u \<in> region. edges g `` {u} \<subseteq> region" by simp
      from closed_region_is_everything [OF conn seed _ this] seed sub
      have "region = set (graph_nodes g)" by auto
      with tot cnt True show False by simp
    qed
    then obtain current rest where q: "queue = current # rest"
      by (cases queue) auto
    with sub qsub have cur: "current \<in> set (graph_nodes g)" by auto
    from neighbors_of_node [OF cur] obtain ns where nb: "neighbors g current = Inr ns" ..
    from neighbors_in_pool [OF nb] wf have ns: "set ns \<subseteq> set (graph_nodes g)" "set ns \<subseteq> dom ul"
      by (auto simp: well_formed_def)
    from expand_scan_total [OF ns(2)] obtain region' queue' cnt' where
      sc: "expand_scan ul k ns (region, rest, cnt) = Inr (region', queue', cnt')"
      by (metis prod_cases3)
    from expand_scan_result [OF sc fin cnt]
    have res: "region \<subseteq> region'" "region' \<subseteq> region \<union> set ns"
      "set queue' = set rest \<union> (region' - region)"
      "cnt' = population ul region'" "k \<le> cnt' \<or> set ns \<subseteq> region'"
      by auto
    have "k \<le> cnt' \<or> (\<forall>u \<in> region' - set queue'. edges g `` {u} \<subseteq> region')"
    proof (cases "k \<le> cnt'")
      case True
      then show ?thesis by simp
    next
      case False
      with res have full: "set ns \<subseteq> region'" by simp
      have "\<forall>u \<in> region' - set queue'. edges g `` {u} \<subseteq> region'"
      proof
        fix u assume u: "u \<in> region' - set queue'"
        with res(3) have "u \<in> region" "u \<notin> set rest" by auto
        show "edges g `` {u} \<subseteq> region'"
        proof (cases "u = current")
          case True
          with neighbors_edges [OF nb] full show ?thesis by simp
        next
          case False
          with \<open>u \<in> region\<close> \<open>u \<notin> set rest\<close> q closed res(1) show ?thesis by auto
        qed
      qed
      then show ?thesis by simp
    qed
    moreover from seed res have "seed \<in> region'" by auto
    moreover from sub res ns have "region' \<subseteq> set (graph_nodes g)" by auto
    moreover from qsub res q have "set queue' \<subseteq> region'" by auto
    ultimately obtain r where
      "expand_region_loop g ul k (region', queue', cnt') = Inr r \<and> k \<le> population ul r \<and> seed \<in> r"
      using "1.hyps" [OF True q nb sc wf conn tot] res(4) by blast
    with True q nb sc show ?thesis
      by (subst expand_region_loop.simps) simp
  qed
qed

lemma expand_anonymization_loop_agrees:
  "expand_region_loop g ul k (region, queue, cnt) = Inr r \<Longrightarrow>
   expand_anonymization_loop g ul k (region, queue, cnt) = Inr r"
proof (induction g ul k "(region, queue, cnt)" arbitrary: region queue cnt
    rule: expand_region_loop.induct)
  case (1 g ul k region queue cnt)
  show ?case
  proof (cases "cnt < k")
    case False
    with "1.prems" show ?thesis
      by (simp add: expand_region_loop.simps expand_anonymization_loop.simps)
  next
    case True
    with "1.prems" obtain current rest ns region' queue' cnt' where
      q: "queue = current # rest" and nb: "neighbors g current = Inr ns"
      and sc: "expand_scan ul k ns (region, rest, cnt) = Inr (region', queue', cnt')"
      and run: "expand_region_loop g ul k (region', queue', cnt') = Inr r"
      by (subst (asm) expand_region_loop.simps) (auto split: list.splits sum.splits)
    from "1.hyps" [OF True q nb sc run] True q nb sc show ?thesis
      by (subst expand_anonymization_loop.simps) simp
  qed
qed

lemma expand_anonymization_loop_returns:
  "well_formed g ul \<Longrightarrow> seed \<in> region \<Longrightarrow> region \<subseteq> set (graph_nodes g) \<Longrightarrow>
   set queue \<subseteq> region \<Longrightarrow> cnt = population ul region \<Longrightarrow>
   k \<le> cnt \<or> (\<forall>u \<in> region - set queue. edges g `` {u} \<subseteq> region) \<Longrightarrow>
   \<exists>r. expand_anonymization_loop g ul k (region, queue, cnt) = Inr r \<and> seed \<in> r \<and>
       (k \<le> population ul r \<or> (\<forall>u \<in> r. edges g `` {u} \<subseteq> r))"
proof (induction g ul k "(region, queue, cnt)" arbitrary: region queue cnt
    rule: expand_anonymization_loop.induct)
  case (1 g ul k region queue cnt)
  note wf = "1.prems"(1) and seed = "1.prems"(2) and sub = "1.prems"(3)
    and qsub = "1.prems"(4) and cnt = "1.prems"(5) and inv = "1.prems"(6)
  show ?case
  proof (cases "cnt < k")
    case False
    with seed cnt show ?thesis
      by (simp add: expand_anonymization_loop.simps)
  next
    case True
    with inv have closed: "\<forall>u \<in> region - set queue. edges g `` {u} \<subseteq> region"
      by auto
    have fin: "finite region"
      using sub by (meson finite_set finite_subset)
    show ?thesis
    proof (cases queue)
      case Nil
      with True seed closed show ?thesis
        by (simp add: expand_anonymization_loop.simps)
    next
      case q: (Cons current rest)
      with sub qsub have cur: "current \<in> set (graph_nodes g)" by auto
      from neighbors_of_node [OF cur] obtain ns where nb: "neighbors g current = Inr ns" ..
      from neighbors_in_pool [OF nb] wf
      have ns: "set ns \<subseteq> set (graph_nodes g)" "set ns \<subseteq> dom ul"
        by (auto simp: well_formed_def)
      from expand_scan_total [OF ns(2)] obtain region' queue' cnt' where
        sc: "expand_scan ul k ns (region, rest, cnt) = Inr (region', queue', cnt')"
        by (metis prod_cases3)
      from expand_scan_result [OF sc fin cnt]
      have res: "region \<subseteq> region'" "region' \<subseteq> region \<union> set ns"
        "set queue' = set rest \<union> (region' - region)"
        "cnt' = population ul region'" "k \<le> cnt' \<or> set ns \<subseteq> region'"
        by auto
      have "k \<le> cnt' \<or> (\<forall>u \<in> region' - set queue'. edges g `` {u} \<subseteq> region')"
      proof (cases "k \<le> cnt'")
        case True
        then show ?thesis by simp
      next
        case False
        with res have full: "set ns \<subseteq> region'" by simp
        have "\<forall>u \<in> region' - set queue'. edges g `` {u} \<subseteq> region'"
        proof
          fix u assume u: "u \<in> region' - set queue'"
          with res(3) have "u \<in> region" "u \<notin> set rest" by auto
          show "edges g `` {u} \<subseteq> region'"
          proof (cases "u = current")
            case True
            with neighbors_edges [OF nb] full show ?thesis by simp
          next
            case False
            with \<open>u \<in> region\<close> \<open>u \<notin> set rest\<close> q closed res(1) show ?thesis by auto
          qed
        qed
        then show ?thesis by simp
      qed
      moreover from seed res have "seed \<in> region'" by auto
      moreover from sub res ns have "region' \<subseteq> set (graph_nodes g)" by auto
      moreover from qsub res q have "set queue' \<subseteq> region'" by auto
      ultimately obtain r where
        "expand_anonymization_loop g ul k (region', queue', cnt') = Inr r \<and> seed \<in> r \<and>
         (k \<le> population ul r \<or> (\<forall>u \<in> r. edges g `` {u} \<subseteq> r))"
        using "1.hyps" [OF True q nb sc wf] res(4) by blast
      with True q nb sc show ?thesis
        by (subst expand_anonymization_loop.simps) simp
    qed
  qed
qed

subsection \<open>Sample runs on the 2 x 2 grid\<close>

lemma well_formed_grid2: "well_formed grid2 grid2_users"
  by (simp add: well_formed_def neighbor_pool_def graph_nodes_def grid2_def grid2_users_def)

lemma edges_grid2: "edges grid2 = {(0, 2), (0, 1), (1, 0), (1, 3), (2, 0), (2, 3), (3, 1), (3, 2)}"
  by (auto simp: edges_def grid2_def split: if_splits)

lemma graph_connected_grid2: "graph_connected grid2"
proof -
  let ?E = "edges grid2"
  have e: "(0, 1) \<in> ?E" "(1, 3) \<in> ?E" "(3, 2) \<in> ?E" "(2, 0) \<in> ?E"
    by (simp_all add: edges_grid2)
  have c01: "(0, 1) \<in> ?E\<^sup>*" and c13: "(1, 3) \<in> ?E\<^sup>*" and c32: "(3, 2) \<in> ?E\<^sup>*"
    and c20: "(2, 0) \<in> ?E\<^sup>*"
    using e by auto
  have from0: "(0, v) \<in> ?E\<^sup>*" if "v \<in> {0, 1, 2, 3}" for v
    using that c01 c13 c32 by (auto intro: rtrancl_trans)
  have to0: "(u, 0) \<in> ?E\<^sup>*" if "u \<in> {0, 1, 2, 3}" for u
    using that c13 c32 c20 by (auto intro: rtrancl_trans)
  have "(u, v) \<in> ?E\<^sup>*" if "u \<in> {0, 1, 2, 3}" "v \<in> {0, 1, 2, 3}" for u v
    using to0 [OF that(1)] from0 [OF that(2)] by (rule rtrancl_trans)
  then show ?thesis
    by (simp add: graph_connected_def graph_nodes_def grid2_def)
qed

lemma expand_anonymization_grid2_k16: "expand_anonymization_region grid2 grid2_users 0 16 = Inr {0, 1, 2, 3}"
  by (auto simp add: expand_anonymization_region_def expand_anonymization_loop.simps grid2_def grid2_users_def neighbors_def)

lemma expand_region_grid2_k7: "expand_region grid2 grid2_users 0 7 = Inr {0, 1, 2}"
  by (auto simp add: expand_region_def expand_region_loop.simps grid2_def grid2_users_def neighbors_def)

lemma expand_anonymization_grid2_k7: "expand_anonymization_region grid2 grid2_users 0 7 = Inr {0, 1, 2}"
  by (auto simp add: expand_anonymization_region_def expand_anonymization_loop.simps grid2_def grid2_users_def neighbors_def)

subsection \<open>Every region contains its seed\<close>

text \<open>
  C5. Every region that an expansion returns contains its seed: if
  \<^verbatim>\<open>expand_region(n, k)\<close> (adka.py) or \<^verbatim>\<open>expand_anonymization_region(n, k)\<close> (the class
  version) returns a region, the region contains \<open>n\<close>; and if
  \<^verbatim>\<open>find_k_anonymous_region\<close> returns for a query user whose current node is
  \<open>query_node\<close>, the returned \<open>region_nodes\<close> contain \<open>query_node\<close>.
\<close>

theorem regions_contain_seed:
  "(expand_region g ul n k = Inr r \<longrightarrow> n \<in> r) \<and>
   (expand_anonymization_region g ul n k = Inr r' \<longrightarrow> n \<in> r') \<and>
   (map_of (users (self_city self)) query_user = Some query_node \<and>
    find_k_anonymous_region self query_user = Inr (region_nodes, users_in_region) \<longrightarrow>
      query_node \<in> region_nodes)"
proof (intro conjI impI)
  assume "expand_region g ul n k = Inr r"
  then show "n \<in> r"
    by (auto simp: expand_region_def split: option.splits dest: expand_region_loop_keeps)
next
  assume "expand_anonymization_region g ul n k = Inr r'"
  then show "n \<in> r'"
    by (auto simp: expand_anonymization_region_def split: option.splits
        dest: expand_anonymization_loop_keeps)
next
  assume "map_of (users (self_city self)) query_user = Some query_node \<and>
    find_k_anonymous_region self query_user = Inr (region_nodes, users_in_region)"
  then show "query_node \<in> region_nodes"
    by (auto simp: find_k_anonymous_region_def dest: find_loop_keeps)
qed

theorem regions_contain_seed_witness:
  "expand_region grid2 grid2_users 0 7 = Inr {0, 1, 2} \<and> (0 :: node) \<in> {0, 1, 2} \<and>
   expand_anonymization_region grid2 grid2_users 0 16 = Inr {0, 1, 2, 3} \<and>
   (0 :: node) \<in> {0, 1, 2, 3} \<and>
   map_of (users two_node_city) 0 = Some 0 \<and>
   find_k_anonymous_region \<lparr>self_city = two_node_city, self_k = 3\<rparr> 0 = Inr ({0, 1}, {0, 1}) \<and>
   (0 :: node) \<in> {0, 1}"
proof -
  have u: "map_of (users (self_city \<lparr>self_city = two_node_city, self_k = 3\<rparr>)) 0 = Some 0"
    by (simp add: two_node_city_def)
  from regions_contain_seed [where g = grid2 and ul = grid2_users and n = 0 and k = 7
      and r = "{0, 1, 2}" and r' = "{0, 1, 2}"
      and self = "\<lparr>self_city = two_node_city, self_k = 3\<rparr>" and query_user = 0
      and query_node = 0 and region_nodes = "{0, 1}" and users_in_region = "{0, 1}"]
    regions_contain_seed [where g = grid2 and ul = grid2_users and n = 0 and k = 16
      and r' = "{0, 1, 2, 3}"]
    expand_region_grid2_k7 expand_anonymization_grid2_k16 u find_two_node_city_k3
  show ?thesis by simp
qed

subsection \<open>Reaching the target on a connected graph\<close>

text \<open>
  C2. On a well-formed, connected graph whose total population is at least \<open>k\<close>, for
  every seed node \<open>n\<close> of the graph, \<^verbatim>\<open>expand_region(n, k)\<close> returns, and the region it
  returns has aggregate population at least \<open>k\<close>. The same holds of the class version
  \<^verbatim>\<open>expand_anonymization_region\<close>.
\<close>

theorem expand_region_reaches_k:
  assumes wf: "well_formed g ul" and conn: "graph_connected g"
    and node: "n \<in> set (graph_nodes g)"
    and tot: "k \<le> population ul (set (graph_nodes g))"
  shows "(\<exists>r. expand_region g ul n k = Inr r \<and> k \<le> population ul r) \<and>
         (\<exists>r. expand_anonymization_region g ul n k = Inr r \<and> k \<le> population ul r)"
proof -
  from wf node obtain c where c: "ul n = Some c"
    by (auto simp: well_formed_def)
  then have pop: "c = population ul {n}"
    by (simp add: population_def)
  from node have sub: "{n} \<subseteq> set (graph_nodes g)" by simp
  have "k \<le> c \<or> (\<forall>u \<in> {n} - set [n]. edges g `` {u} \<subseteq> {n})" by simp
  from expand_region_loop_reaches_k [OF wf conn tot _ sub _ pop this]
  obtain r where r: "expand_region_loop g ul k ({n}, [n], c) = Inr r" "k \<le> population ul r"
    by auto
  from expand_anonymization_loop_agrees [OF r(1)] r c show ?thesis
    by (simp add: expand_region_def expand_anonymization_region_def)
qed

theorem expand_region_reaches_k_witness:
  "well_formed grid2 grid2_users \<and> graph_connected grid2 \<and> 0 \<in> set (graph_nodes grid2) \<and>
   7 \<le> population grid2_users (set (graph_nodes grid2)) \<and>
   expand_region grid2 grid2_users 0 7 = Inr {0, 1, 2} \<and>
   expand_anonymization_region grid2 grid2_users 0 7 = Inr {0, 1, 2} \<and>
   7 \<le> population grid2_users {0, 1, 2}"
proof -
  have node: "0 \<in> set (graph_nodes grid2)"
    by (simp add: graph_nodes_def grid2_def)
  have tot: "7 \<le> population grid2_users (set (graph_nodes grid2))"
    by (simp add: graph_nodes_def grid2_def population_def grid2_users_def)
  from expand_region_reaches_k [OF well_formed_grid2 graph_connected_grid2 node tot]
  obtain r r' where "expand_region grid2 grid2_users 0 7 = Inr r" "7 \<le> population grid2_users r"
    "expand_anonymization_region grid2 grid2_users 0 7 = Inr r'"
    by blast
  with expand_region_grid2_k7 expand_anonymization_grid2_k7 well_formed_grid2 graph_connected_grid2 node tot show ?thesis
    by simp
qed

subsection \<open>An exhausted frontier\<close>

text \<open>
  C3 (the code departs from the claim). On the 2 x 2 grid with its 15 users, seed 0
  and \<open>k = 16\<close>, the frontier runs empty with the count still below \<open>k\<close>; the loop of
  \<^verbatim>\<open>expand_region\<close> in adka.py tests the count only, and \<^verbatim>\<open>queue.pop(0)\<close> raises
  IndexError instead of returning the region.
\<close>

theorem expand_region_exhausted_raises: "expand_region grid2 grid2_users 0 16 = Inl IndexError"
  by (simp add: expand_region_def expand_region_loop.simps grid2_def grid2_users_def neighbors_def)

text \<open>
  The class version has the guard \<^verbatim>\<open>and queue\<close> that adka.py misses: on the same input
  it returns the whole grid, and on every well-formed graph it returns a region that
  contains the seed and either reaches \<open>k\<close> or is closed under the edges (the frontier
  was exhausted).
\<close>

lemma expand_anonymization_region_returns:
  assumes wf: "well_formed g ul" and node: "n \<in> set (graph_nodes g)"
  shows "\<exists>r. expand_anonymization_region g ul n k = Inr r \<and> n \<in> r \<and>
           (k \<le> population ul r \<or> (\<forall>u \<in> r. edges g `` {u} \<subseteq> r))"
proof -
  from wf node obtain c where c: "ul n = Some c"
    by (auto simp: well_formed_def)
  then have pop: "c = population ul {n}"
    by (simp add: population_def)
  from node have sub: "{n} \<subseteq> set (graph_nodes g)" by simp
  have "k \<le> c \<or> (\<forall>u \<in> {n} - set [n]. edges g `` {u} \<subseteq> {n})" by simp
  from expand_anonymization_loop_returns [OF wf _ sub _ pop this] c show ?thesis
    by (simp add: expand_anonymization_region_def)
qed

section \<open>Local density\<close>

subsection \<open>Hop distance\<close>

lemma within_hops_0: "within_hops g n 0 = {n}"
  by (auto simp: within_hops_def)

lemma within_hops_Suc:
  "within_hops g n (Suc d) = within_hops g n d \<union> edges g `` within_hops g n d"
proof (intro equalityI subsetI)
  fix v assume "v \<in> within_hops g n (Suc d)"
  then obtain i where i: "i \<le> Suc d" "(n, v) \<in> edges g ^^ i"
    by (auto simp: within_hops_def)
  show "v \<in> within_hops g n d \<union> edges g `` within_hops g n d"
  proof (cases i)
    case 0
    with i show ?thesis by (auto simp: within_hops_def)
  next
    case (Suc j)
    with i obtain w where "(n, w) \<in> edges g ^^ j" "(w, v) \<in> edges g" "j \<le> d"
      by auto
    then show ?thesis by (auto simp: within_hops_def)
  qed
next
  fix v assume "v \<in> within_hops g n d \<union> edges g `` within_hops g n d"
  then show "v \<in> within_hops g n (Suc d)"
  proof
    assume "v \<in> within_hops g n d"
    then show ?thesis by (auto simp: within_hops_def intro: le_SucI)
  next
    assume "v \<in> edges g `` within_hops g n d"
    then obtain w i where "i \<le> d" "(n, w) \<in> edges g ^^ i" "(w, v) \<in> edges g"
      by (auto simp: within_hops_def)
    then have "Suc i \<le> Suc d" "(n, v) \<in> edges g ^^ Suc i"
      by auto
    then show ?thesis unfolding within_hops_def by blast
  qed
qed

lemma within_hops_mono: "d \<le> d' \<Longrightarrow> within_hops g n d \<subseteq> within_hops g n d'"
  by (auto simp: within_hops_def intro: order_trans)

lemma within_hops_stable:
  "within_hops g n (Suc t) = within_hops g n t \<Longrightarrow> within_hops g n (t + j) = within_hops g n t"
proof (induction j)
  case 0
  then show ?case by simp
next
  case (Suc j)
  then have "within_hops g n (Suc (t + j)) = within_hops g n t \<union> edges g `` within_hops g n t"
    by (simp add: within_hops_Suc)
  also have "\<dots> = within_hops g n (Suc t)"
    by (simp add: within_hops_Suc)
  finally show ?case using Suc.prems by simp
qed

lemma edges_into_pool: "(u, v) \<in> edges g \<Longrightarrow> v \<in> neighbor_pool g"
proof -
  assume "(u, v) \<in> edges g"
  then obtain ns where "map_of g u = Some ns" "v \<in> set ns"
    by (auto simp: edges_def)
  then have "(u, ns) \<in> set g" "v \<in> set (snd (u, ns))"
    by (auto dest: map_of_SomeD)
  then show ?thesis
    unfolding neighbor_pool_def by blast
qed

lemma within_hops_nodes:
  "well_formed g ul \<Longrightarrow> n \<in> set (graph_nodes g) \<Longrightarrow> within_hops g n d \<subseteq> set (graph_nodes g)"
proof (induction d)
  case 0
  then show ?case by (simp add: within_hops_0)
next
  case (Suc d)
  then show ?case
    by (auto simp: within_hops_Suc well_formed_def dest!: edges_into_pool)
qed

lemma density_scan_total:
  "set ns \<subseteq> dom ul \<Longrightarrow> \<exists>s'. density_scan ul d ns s = Inr s'"
proof (induction ns arbitrary: s)
  case Nil
  show ?case by (cases s) simp
next
  case (Cons neigh ns)
  obtain visited queue cnt where s: "s = (visited, queue, cnt)" by (cases s) auto
  from Cons.prems obtain p where "ul neigh = Some p" by auto
  with Cons.IH Cons.prems s show ?case by auto
qed

lemma density_scan_result:
  "density_scan ul d ns (visited, queue, cnt) = Inr (visited', queue', cnt') \<Longrightarrow>
   finite visited \<Longrightarrow> cnt = population ul visited \<Longrightarrow>
   visited' = visited \<union> set ns \<and> cnt' = population ul visited' \<and>
   (\<exists>new. queue' = queue @ map (\<lambda>v. (v, d + 1)) new \<and> set new = set ns - visited)"
proof (induction ns arbitrary: visited queue cnt)
  case Nil
  then show ?case by auto
next
  case (Cons neigh ns)
  show ?case
  proof (cases "neigh \<in> visited")
    case True
    with Cons.prems have "density_scan ul d ns (visited, queue, cnt) = Inr (visited', queue', cnt')"
      by simp
    from Cons.IH [OF this Cons.prems(2,3)] True show ?thesis by auto
  next
    case False
    with Cons.prems(1) obtain p where p: "ul neigh = Some p"
      and run: "density_scan ul d ns (insert neigh visited, queue @ [(neigh, d + 1)], cnt + p)
                = Inr (visited', queue', cnt')"
      by (auto split: option.splits)
    from Cons.prems False p
    have pop: "cnt + p = population ul (insert neigh visited)"
      by (simp add: population_def)
    from Cons.prems have "finite (insert neigh visited)" by simp
    from Cons.IH [OF run this pop] obtain new where
      new: "visited' = insert neigh visited \<union> set ns" "cnt' = population ul visited'"
        "queue' = (queue @ [(neigh, d + 1)]) @ map (\<lambda>v. (v, d + 1)) new"
        "set new = set ns - insert neigh visited"
      by auto
    from new(3) have q': "queue' = queue @ map (\<lambda>v. (v, d + 1)) (neigh # new)" by simp
    from new(4) False have sn: "set (neigh # new) = set (neigh # ns) - visited" by auto
    from new(1) have v: "visited' = visited \<union> set (neigh # ns)" by auto
    from q' sn have "\<exists>new. queue' = queue @ map (\<lambda>v. (v, d + 1)) new \<and>
        set new = set (neigh # ns) - visited"
      by (rule_tac x = "neigh # new" in exI) (rule conjI)
    with v new(2) show ?thesis by (intro conjI)
  qed
qed

lemma density_inv_init:
  assumes "ul n = Some c"
  shows "density_inv g ul n D 0 [n] [] {n} c"
proof -
  have "{n} \<subseteq> within_hops g n (Suc 0)" "{n} \<subseteq> within_hops g n D"
    using within_hops_mono [of 0 "Suc 0" g n] within_hops_mono [of 0 D g n]
    by (simp_all add: within_hops_0)
  moreover from assms have "c = population ul {n}"
    by (simp add: population_def)
  ultimately show ?thesis
    unfolding density_inv_def by (simp add: within_hops_0)
qed

lemma density_inv_skip:
  "density_inv g ul n D D (a # A) B visited cnt \<Longrightarrow> density_inv g ul n D D A B visited cnt"
  by (simp add: density_inv_def)

lemma density_inv_step:
  assumes inv: "density_inv g ul n D t (a # A) B visited cnt" and lt: "t < D"
    and ns: "set ns = edges g `` {a}" and vis': "visited' = visited \<union> set ns"
    and cnt': "cnt' = population ul visited'" and new: "set new = set ns - visited"
  shows "density_inv g ul n D t A (B @ new) visited' cnt'"
proof -
  from inv have base: "within_hops g n t \<subseteq> visited"
    "visited \<subseteq> within_hops g n (Suc t)" "visited \<subseteq> within_hops g n D"
    "a \<in> within_hops g n t" "set A \<subseteq> within_hops g n t" "set B = visited - within_hops g n t"
    by (simp_all add: density_inv_def)
  from inv lt have closed: "\<forall>u \<in> within_hops g n t - set (a # A). edges g `` {u} \<subseteq> visited"
    by (simp add: density_inv_def)
  from ns base(4) have nsub: "set ns \<subseteq> within_hops g n (Suc t)"
    by (auto simp: within_hops_Suc)
  from lt have "within_hops g n (Suc t) \<subseteq> within_hops g n D"
    by (intro within_hops_mono) simp
  with nsub base vis' have 1: "visited' \<subseteq> within_hops g n (Suc t)" "visited' \<subseteq> within_hops g n D"
    "within_hops g n t \<subseteq> visited'"
    by auto
  from base vis' new have 2: "set (B @ new) = visited' - within_hops g n t"
    by auto
  have 3: "\<forall>u \<in> within_hops g n t - set A. edges g `` {u} \<subseteq> visited'"
  proof
    fix u assume u: "u \<in> within_hops g n t - set A"
    show "edges g `` {u} \<subseteq> visited'"
    proof (cases "u = a")
      case True
      with ns vis' show ?thesis by auto
    next
      case False
      with u closed vis' show ?thesis by auto
    qed
  qed
  from lt cnt' 1 2 3 base(5) show ?thesis
    unfolding density_inv_def by simp
qed

lemma density_inv_next_level:
  assumes inv: "density_inv g ul n D t [] B visited cnt" and B: "B \<noteq> []"
  shows "density_inv g ul n D (Suc t) B [] visited cnt"
    and "level_queue t [] B = level_queue (Suc t) B []"
proof -
  from inv have base: "t \<le> D" "cnt = population ul visited" "within_hops g n t \<subseteq> visited"
    "visited \<subseteq> within_hops g n (Suc t)" "visited \<subseteq> within_hops g n D"
    "set B = visited - within_hops g n t"
    by (simp_all add: density_inv_def)
  from B base(6) have "\<not> visited \<subseteq> within_hops g n t"
    by (cases B) auto
  with base(1,5) have lt: "t < D"
    by (cases "t = D") auto
  with inv have closed: "\<forall>u \<in> within_hops g n t. edges g `` {u} \<subseteq> visited"
    by (simp add: density_inv_def)
  with base(3) have "within_hops g n (Suc t) \<subseteq> visited"
    by (auto simp: within_hops_Suc)
  with base(4) have eq: "visited = within_hops g n (Suc t)" by simp
  have "visited \<subseteq> within_hops g n (Suc (Suc t))"
    using eq within_hops_mono [of "Suc t" "Suc (Suc t)" g n] by simp
  moreover have "set B \<subseteq> within_hops g n (Suc t)" using base(6) eq by auto
  moreover have "\<forall>u \<in> within_hops g n (Suc t) - set B. edges g `` {u} \<subseteq> visited"
    using closed base(6) eq by auto
  ultimately show "density_inv g ul n D (Suc t) B [] visited cnt"
    using lt base eq unfolding density_inv_def by simp
  show "level_queue t [] B = level_queue (Suc t) B []"
    by (simp add: level_queue_def)
qed

lemma density_inv_done:
  assumes inv: "density_inv g ul n D t [] [] visited cnt"
  shows "visited = within_hops g n D"
proof -
  from inv have base: "t \<le> D" "within_hops g n t \<subseteq> visited" "visited \<subseteq> within_hops g n D"
    "visited - within_hops g n t = {}"
    by (simp_all add: density_inv_def)
  then have eq: "visited = within_hops g n t" by auto
  show ?thesis
  proof (cases "t = D")
    case True
    with eq show ?thesis by simp
  next
    case False
    with base(1) have lt: "t < D" by simp
    with inv have "\<forall>u \<in> within_hops g n t. edges g `` {u} \<subseteq> visited"
      by (simp add: density_inv_def)
    with eq have "within_hops g n (Suc t) = within_hops g n t"
      by (auto simp: within_hops_Suc)
    from within_hops_stable [OF this, of "D - t"] lt eq show ?thesis by simp
  qed
qed


lemma level_queue_Nil: "level_queue t [] [] = []"
  by (simp add: level_queue_def)

lemma level_queue_Cons: "level_queue t (a # A) B = (a, int t) # level_queue t A B"
  by (simp add: level_queue_def)

lemma level_queue_append:
  "level_queue t A B @ map (\<lambda>v. (v, int t + 1)) new = level_queue t A (B @ new)"
  by (simp add: level_queue_def)

lemma density_loop_correct:
  "well_formed g ul \<Longrightarrow> n \<in> set (graph_nodes g) \<Longrightarrow> depth = int D \<Longrightarrow>
   \<exists>t A B. queue = level_queue t A B \<and> density_inv g ul n D t A B visited cnt \<Longrightarrow>
   density_loop g ul depth (visited, queue, cnt) = Inr (population ul (within_hops g n D))"
proof (induction g ul depth "(visited, queue, cnt)" arbitrary: visited queue cnt
    rule: density_loop.induct)
  case (1 g ul depth visited queue cnt)
  note wf = "1.prems"(1) and node = "1.prems"(2) and depth = "1.prems"(3)
  from "1.prems"(4) obtain t0 A0 B0 where
    q0: "queue = level_queue t0 A0 B0" and inv0: "density_inv g ul n D t0 A0 B0 visited cnt"
    by blast
  show ?case
  proof (cases queue)
    case Nil
    with q0 have "A0 = []" "B0 = []" by (simp_all add: level_queue_def)
    with inv0 have "visited = within_hops g n D"
      by (simp add: density_inv_done)
    moreover from inv0 have "cnt = population ul visited"
      by (simp add: density_inv_def)
    ultimately show ?thesis using Nil
      by (simp add: density_loop.simps)
  next
    case (Cons x rest)
    obtain t a A B where q: "queue = level_queue t (a # A) B"
      and inv: "density_inv g ul n D t (a # A) B visited cnt"
    proof (cases A0)
      case (Cons a A)
      with q0 inv0 that show ?thesis by blast
    next
      case Nil
      with q0 \<open>queue = x # rest\<close> have "B0 \<noteq> []"
        by (auto simp: level_queue_def)
      then obtain b B' where B0: "B0 = b # B'" by (cases B0) auto
      from density_inv_next_level [OF inv0 [unfolded Nil] \<open>B0 \<noteq> []\<close>] q0 Nil B0 that
      show ?thesis by metis
    qed
    from q Cons have x: "x = (a, int t)" and rest: "rest = level_queue t A B"
      by (simp_all add: level_queue_Cons)
    from inv have base: "t \<le> D" "cnt = population ul visited" "a \<in> within_hops g n t"
      "visited \<subseteq> within_hops g n D"
      by (simp_all add: density_inv_def)
    show ?thesis
    proof (cases "t = D")
      case True
      with inv have "density_inv g ul n D D A B visited cnt"
        by (simp add: density_inv_skip)
      with rest True have "\<exists>t A B. rest = level_queue t A B \<and> density_inv g ul n D t A B visited cnt"
        by blast
      from "1.hyps"(1) [OF Cons x [symmetric] _ wf node depth this] True depth
      have "density_loop g ul depth (visited, rest, cnt) = Inr (population ul (within_hops g n D))"
        by simp
      with Cons x True depth show ?thesis
        by (subst density_loop.simps) simp
    next
      case False
      with base(1) have lt: "t < D" by simp
      with depth have ne: "int t \<noteq> depth" by simp
      from within_hops_nodes [OF wf node] base(3) have "a \<in> set (graph_nodes g)" by blast
      then obtain ns where nb: "neighbors g a = Inr ns"
        by (cases "map_of g a") (auto simp: neighbors_def graph_nodes_def map_of_eq_None_iff)
      then have nse: "set ns = edges g `` {a}"
        by (auto simp: neighbors_def edges_def split: option.splits)
      from neighbors_in_pool [OF nb] wf have "set ns \<subseteq> dom ul"
        by (auto simp: well_formed_def)
      from density_scan_total [OF this] obtain visited' queue' cnt' where
        sc: "density_scan ul (int t) ns (visited, rest, cnt) = Inr (visited', queue', cnt')"
        by (metis prod_cases3)
      have fin: "finite visited"
        using base(4) within_hops_nodes [OF wf node, of D] by (meson finite_set finite_subset)
      from density_scan_result [OF sc fin base(2)] obtain new where
        res: "visited' = visited \<union> set ns" "cnt' = population ul visited'"
          "queue' = rest @ map (\<lambda>v. (v, int t + 1)) new" "set new = set ns - visited"
        by blast
      from density_inv_step [OF inv lt nse res(1,2,4)]
      have "density_inv g ul n D t A (B @ new) visited' cnt'" .
      moreover from res(3) rest have "queue' = level_queue t A (B @ new)"
        by (simp add: level_queue_append)
      ultimately have "\<exists>t A B. queue' = level_queue t A B \<and>
          density_inv g ul n D t A B visited' cnt'"
        by blast
      from "1.hyps"(2) [OF Cons x [symmetric] ne nb sc wf node depth this]
      have "density_loop g ul depth (visited', queue', cnt')
            = Inr (population ul (within_hops g n D))" .
      with Cons x ne nb sc show ?thesis
        by (subst density_loop.simps) simp
    qed
  qed
qed

subsection \<open>The density is the population within the depth\<close>

text \<open>
  C4. On a well-formed graph, for every node \<open>n\<close> of the graph and every depth
  \<open>d \<ge> 0\<close>, \<^verbatim>\<open>compute_density(n, d)\<close> returns the sum of the population counts over
  exactly the set of nodes whose hop distance from \<open>n\<close> is at most \<open>d\<close>; the sum ranges
  over a set, so each node is counted once, also when the graph has cycles. In
  particular \<^verbatim>\<open>compute_density(n, 0)\<close> is the population of \<open>n\<close> itself.
\<close>

theorem compute_density_sums_within_hops:
  assumes wf: "well_formed g ul" and node: "n \<in> set (graph_nodes g)" and depth: "0 \<le> depth"
  shows "compute_density g ul n depth = Inr (population ul (within_hops g n (nat depth))) \<and>
         (\<exists>p. ul n = Some p \<and> compute_density g ul n 0 = Inr p)"
proof -
  from wf node obtain c where c: "ul n = Some c"
    by (auto simp: well_formed_def)
  have run: "compute_density g ul n (int D) = Inr (population ul (within_hops g n D))" for D
  proof -
    have "[(n, 0)] = level_queue 0 [n] []"
      by (simp add: level_queue_def)
    with density_inv_init [where ul = ul and n = n and c = c and g = g and D = D, OF c]
    have "\<exists>t A B. [(n, 0)] = level_queue t A B \<and> density_inv g ul n D t A B {n} c"
      by blast
    from density_loop_correct [OF wf node refl this] c show ?thesis
      by (simp add: compute_density_def)
  qed
  from run [of "nat depth"] depth
  have "compute_density g ul n depth = Inr (population ul (within_hops g n (nat depth)))"
    by simp
  moreover from run [of 0] c have "compute_density g ul n 0 = Inr c"
    by (simp add: within_hops_0 population_def)
  ultimately show ?thesis using c by simp
qed

text \<open>
  The theorem on the 2 x 2 grid, a cycle: node 3 is two hops from node 0 along two
  walks and is counted once.
\<close>

lemma edges_Image_node:
  "edges g `` {u} = (case map_of g u of None \<Rightarrow> {} | Some ns \<Rightarrow> set ns)"
  by (auto simp: edges_def split: option.splits)

lemma within_hops_grid2_1: "within_hops grid2 0 (Suc 0) = {0, 1, 2}"
proof -
  have "edges grid2 `` {0} = {2, 1}"
    by (simp add: edges_Image_node grid2_def)
  then have "within_hops grid2 0 (Suc 0) = {0} \<union> {2, 1}"
    by (simp only: within_hops_Suc within_hops_0)
  also have "\<dots> = {0, 1, 2}"
    by (simp add: insert_commute)
  finally show ?thesis .
qed

lemma within_hops_grid2_2: "within_hops grid2 0 (Suc (Suc 0)) = {0, 1, 2, 3}"
proof -
  have e: "edges grid2 `` {0} = {2, 1}" "edges grid2 `` {1} = {0, 3}"
    "edges grid2 `` {2} = {0, 3}"
    by (simp_all add: edges_Image_node grid2_def)
  have "edges grid2 `` {0, 1, 2} = edges grid2 `` {0} \<union> edges grid2 `` {1} \<union> edges grid2 `` {2}"
    by blast
  also have "\<dots> = {2, 1} \<union> {0, 3} \<union> {0, 3}"
    by (simp only: e)
  finally have "edges grid2 `` {0, 1, 2} = {2, 1} \<union> {0, 3} \<union> {0, 3}" .
  then have "within_hops grid2 0 (Suc (Suc 0)) = {0, 1, 2} \<union> ({2, 1} \<union> {0, 3} \<union> {0, 3})"
    by (simp only: within_hops_Suc [of grid2 0 "Suc 0"] within_hops_grid2_1)
  also have "\<dots> = {0, 1, 2, 3}"
    by (simp add: insert_commute)
  finally show ?thesis .
qed

lemma compute_density_grid2_run: "compute_density grid2 grid2_users 0 2 = Inr 15"
  by (simp add: compute_density_def density_loop.simps grid2_def grid2_users_def neighbors_def)

theorem compute_density_sums_within_hops_witness:
  "well_formed grid2 grid2_users \<and> 0 \<in> set (graph_nodes grid2) \<and>
   within_hops grid2 0 (Suc 0) = {0, 1, 2} \<and> compute_density grid2 grid2_users 0 1 = Inr 7 \<and>
   within_hops grid2 0 (Suc (Suc 0)) = {0, 1, 2, 3} \<and>
   compute_density grid2 grid2_users 0 2 = Inr 15 \<and>
   grid2_users 0 = Some 1 \<and> compute_density grid2 grid2_users 0 0 = Inr 1"
proof -
  have node: "0 \<in> set (graph_nodes grid2)"
    by (simp add: graph_nodes_def grid2_def)
  have p1: "population grid2_users {0, 1, 2} = 7" and p2: "population grid2_users {0, 1, 2, 3} = 15"
    and p0: "grid2_users 0 = Some 1"
    by (simp_all add: population_def grid2_users_def)
  have n1: "nat 1 = Suc 0" and n2: "nat 2 = Suc (Suc 0)"
    by simp_all
  have le: "(0 :: int) \<le> 1" "(0 :: int) \<le> 2"
    by simp_all
  from compute_density_sums_within_hops [OF well_formed_grid2 node le(1)]
  have d1: "compute_density grid2 grid2_users 0 1 = Inr 7"
    and d0: "compute_density grid2 grid2_users 0 0 = Inr 1"
    unfolding n1 within_hops_grid2_1 p1 using p0 by simp_all
  from compute_density_sums_within_hops [OF well_formed_grid2 node le(2)]
  have d2: "compute_density grid2 grid2_users 0 2 = Inr 15"
    unfolding n2 within_hops_grid2_2 p2 by simp
  from well_formed_grid2 node within_hops_grid2_1 within_hops_grid2_2 d0 d1 d2 p0
  show ?thesis by simp
qed

section \<open>Invalid configuration\<close>

text \<open>
  C6 (amended). Neither constructor validates its configuration:
  \<^verbatim>\<open>DifferentialPrivacyLocationObfuscator(epsilon_values)\<close> keeps whatever list it is
  given, an empty one or one with budgets \<open>\<le> 0\<close> included, and fixes the sensitivity at
  1.0, and \<^verbatim>\<open>KAnonymityPrivacyManager(city, k)\<close> keeps whatever \<open>k\<close> it is given. A budget
  \<open>\<epsilon> \<le> 0\<close> is rejected only when noise is asked for: \<^verbatim>\<open>add_laplace_noise\<close>, and so
  \<^verbatim>\<open>obfuscate_location\<close>, raises ZeroDivisionError for \<open>\<epsilon> = 0\<close>, and ValueError whenever
  the scale \<open>sensitivity / \<epsilon>\<close> is negative (for a constructed obfuscator: whenever
  \<open>\<epsilon> < 0\<close>), before any noise is added; with a scale \<open>\<ge> 0\<close> it returns the value plus
  the noise. A non-positive \<open>k\<close> is rejected nowhere: \<^verbatim>\<open>find_k_anonymous_region\<close> then
  returns the seed node and the query user alone. An empty budget list is rejected
  nowhere.
\<close>

theorem configuration_checked_only_by_noise_call:
  "DifferentialPrivacyLocationObfuscator_init evs = Inr \<lparr>epsilon_values = evs, sensitivity = 1\<rparr> \<and>
   KAnonymityPrivacyManager_init c k = Inr \<lparr>self_city = c, self_k = k\<rparr> \<and>
   add_laplace_noise obf val 0 u = Inl ZeroDivisionError \<and>
   obfuscate_location obf x y 0 us = Inl ZeroDivisionError \<and>
   (epsilon \<noteq> 0 \<and> sensitivity obf / epsilon < 0 \<longrightarrow>
      add_laplace_noise obf val epsilon u = Inl ValueError \<and>
      obfuscate_location obf x y epsilon us = Inl ValueError) \<and>
   (epsilon < 0 \<longrightarrow>
      add_laplace_noise \<lparr>epsilon_values = evs, sensitivity = 1\<rparr> val epsilon u = Inl ValueError) \<and>
   (epsilon \<noteq> 0 \<and> 0 \<le> sensitivity obf / epsilon \<longrightarrow>
      add_laplace_noise obf val epsilon u = Inr (val + sensitivity obf / epsilon * u)) \<and>
   (self_k self \<le> 0 \<and> map_of (users (self_city self)) query_user = Some query_node \<longrightarrow>
      find_k_anonymous_region self query_user = Inr ({query_node}, {query_user}))"
proof (intro conjI impI)
  show "DifferentialPrivacyLocationObfuscator_init evs
        = Inr \<lparr>epsilon_values = evs, sensitivity = 1\<rparr>"
    by (simp add: DifferentialPrivacyLocationObfuscator_init_def)
  show "KAnonymityPrivacyManager_init c k = Inr \<lparr>self_city = c, self_k = k\<rparr>"
    by (simp add: KAnonymityPrivacyManager_init_def)
  show "add_laplace_noise obf val 0 u = Inl ZeroDivisionError"
    by (simp add: add_laplace_noise_def)
  show "obfuscate_location obf x y 0 us = Inl ZeroDivisionError"
    by (simp add: obfuscate_location_def add_laplace_noise_def)
next
  assume "epsilon \<noteq> 0 \<and> sensitivity obf / epsilon < 0"
  then show "add_laplace_noise obf val epsilon u = Inl ValueError"
    and "obfuscate_location obf x y epsilon us = Inl ValueError"
    by (simp_all add: obfuscate_location_def add_laplace_noise_def np_random_laplace_def)
next
  assume "epsilon < 0"
  then show "add_laplace_noise \<lparr>epsilon_values = evs, sensitivity = 1\<rparr> val epsilon u
             = Inl ValueError"
    by (simp add: add_laplace_noise_def np_random_laplace_def)
next
  assume "epsilon \<noteq> 0 \<and> 0 \<le> sensitivity obf / epsilon"
  then show "add_laplace_noise obf val epsilon u = Inr (val + sensitivity obf / epsilon * u)"
    by (simp add: add_laplace_noise_def np_random_laplace_def)
next
  assume "self_k self \<le> 0 \<and> map_of (users (self_city self)) query_user = Some query_node"
  then show "find_k_anonymous_region self query_user = Inr ({query_node}, {query_user})"
    by (simp add: find_k_anonymous_region_def find_loop.simps)
qed

theorem configuration_checked_only_by_noise_call_witness:
  "add_laplace_noise \<lparr>epsilon_values = [1 / 2], sensitivity = 1\<rparr> 3 (- 2) 4 = Inl ValueError \<and>
   obfuscate_location \<lparr>epsilon_values = [1 / 2], sensitivity = 1\<rparr> 3 5 (- 2) (4, 6)
     = Inl ValueError \<and>
   add_laplace_noise \<lparr>epsilon_values = [1 / 2], sensitivity = 1\<rparr> 3 (1 / 2) 4 = Inr 11 \<and>
   self_k \<lparr>self_city = one_node_city, self_k = 0\<rparr> \<le> 0 \<and>
   map_of (users one_node_city) 0 = Some 0 \<and>
   find_k_anonymous_region \<lparr>self_city = one_node_city, self_k = 0\<rparr> 0 = Inr ({0}, {0})"
proof -
  have u: "map_of (users one_node_city) 0 = Some 0"
    by (simp add: one_node_city_def)
  from u
    configuration_checked_only_by_noise_call
      [where obf = "\<lparr>epsilon_values = [1 / 2], sensitivity = 1\<rparr>" and epsilon = "- 2"
        and val = 3 and u = 4 and x = 3 and y = 5 and us = "(4, 6)"
        and self = "\<lparr>self_city = one_node_city, self_k = 0\<rparr>" and query_user = 0
        and query_node = 0]
    configuration_checked_only_by_noise_call
      [where obf = "\<lparr>epsilon_values = [1 / 2], sensitivity = 1\<rparr>" and epsilon = "1 / 2"
        and val = 3 and u = 4]
  show ?thesis by simp
qed

text \<open>
  The claim as written fails: an empty budget list, a list of non-positive budgets and
  the values 0 and -3 for \<open>k\<close> are accepted at construction, and the calls with these
  values of \<open>k\<close> return normally.
\<close>

theorem invalid_configuration_accepted_counterexample:
  "\<not> isl (DifferentialPrivacyLocationObfuscator_init []) \<and>
   \<not> isl (DifferentialPrivacyLocationObfuscator_init [0, - 1]) \<and>
   \<not> isl (KAnonymityPrivacyManager_init one_node_city 0) \<and>
   \<not> isl (KAnonymityPrivacyManager_init one_node_city (- 3)) \<and>
   find_k_anonymous_region \<lparr>self_city = one_node_city, self_k = 0\<rparr> 0 = Inr ({0}, {0}) \<and>
   get_anonymized_location \<lparr>self_city = one_node_city, self_k = - 3\<rparr> 0 = Inr (0, 0, {0}, {0})"
proof -
  have f: "find_k_anonymous_region \<lparr>self_city = one_node_city, self_k = k\<rparr> 0 = Inr ({0}, {0})"
    if "k \<le> 0" for k
    using that by (simp add: find_k_anonymous_region_def find_loop.simps one_node_city_def)
  have "get_anonymized_location \<lparr>self_city = one_node_city, self_k = - 3\<rparr> 0
        = Inr (0, 0, {0}, {0})"
    unfolding get_anonymized_location_def f [of "- 3", simplified]
    by (simp add: Let_def centroid_one_node_city)
  with f [of 0] show ?thesis
    by (simp add: DifferentialPrivacyLocationObfuscator_init_def
        KAnonymityPrivacyManager_init_def)
qed

end
